theory Spec2Isabelle
  imports Complex_Main
begin

section \<open>The data cleaning engine of \<^verbatim>\<open>src/client/lib/cleaning.ts\<close>\<close>

text \<open>
  The engine takes rows of loosely typed cells and a column profile and returns cleaned
  rows and a report. This theory embeds its functions as HOL functions and proves
  properties of them.

  Conventions of the embedding.
  \<^item> A finite JavaScript number is represented by the rational number it denotes, and
    arithmetic on finite numbers is exact: rounding and overflow of IEEE doubles are
    outside the model. The non-finite numbers are separate constructors.
  \<^item> A string is a \<^typ>\<open>string\<close>; a \<^typ>\<open>char\<close> stands for a code unit below 256.
  \<^item> A \<^verbatim>\<open>Date\<close> object is represented by its time value: milliseconds since the epoch,
    or \<^term>\<open>None\<close> for an invalid date.
  \<^item> Functions of the JavaScript engine whose results depend on the double format or on
    the implementation (\<^verbatim>\<open>parseFloat\<close>, number and date to text, \<^verbatim>\<open>Date.parse\<close>,
    \<^verbatim>\<open>toFixed\<close>) are a parameter of the model, the record \<open>builtins\<close>; every theorem
    holds for any choice of them.
\<close>

subsection \<open>Cell values, rows, profile\<close>

datatype jsnum = Fin rat | NaN | PosInf | NegInf

datatype jsval =
    JNull
  | JUndefined
  | JBool bool
  | JNum jsnum
  | JStr string
  | JDate "int option"

type_synonym row = "string \<Rightarrow> jsval option"

text \<open>\<^verbatim>\<open>rr[name]\<close>: reading a key that the object does not have gives \<^verbatim>\<open>undefined\<close>.\<close>

definition cell :: "row \<Rightarrow> string \<Rightarrow> jsval" where
  "cell rr k = (case rr k of None \<Rightarrow> JUndefined | Some v \<Rightarrow> v)"

text \<open>
  A column descriptor. The declaration of \<^verbatim>\<open>DatasetProfile\<close> is not among the sources;
  the code reads \<^verbatim>\<open>col.name\<close> and compares \<^verbatim>\<open>col.type\<close> with string literals, so both
  fields are strings here.
\<close>

record column =
  cname :: string
  ctype :: string

record DatasetProfile =
  columns :: "column list"

record builtins =
  parseFloat :: "string \<Rightarrow> jsnum"
  numberToString :: "jsnum \<Rightarrow> string"
  dateToString :: "int option \<Rightarrow> string"
  dateParse :: "string \<Rightarrow> int option"
  toFixed2 :: "rat \<Rightarrow> string"

text \<open>\<^verbatim>\<open>v == null\<close> holds of \<^verbatim>\<open>null\<close> and of \<^verbatim>\<open>undefined\<close>.\<close>

definition nullish :: "jsval \<Rightarrow> bool" where
  "nullish v = (v = JNull \<or> v = JUndefined)"

text \<open>\<^verbatim>\<open>v == null || v === ""\<close>, the test every coercion starts with.\<close>

definition blank :: "jsval \<Rightarrow> bool" where
  "blank v = (nullish v \<or> v = JStr [])"

text \<open>\<^verbatim>\<open>String(v)\<close>, also the conversion of a template literal.\<close>

definition String_of :: "builtins \<Rightarrow> jsval \<Rightarrow> string" where
  "String_of B v =
     (case v of
        JNull \<Rightarrow> ''null''
      | JUndefined \<Rightarrow> ''undefined''
      | JBool b \<Rightarrow> (if b then ''true'' else ''false'')
      | JNum n \<Rightarrow> numberToString B n
      | JStr s \<Rightarrow> s
      | JDate d \<Rightarrow> dateToString B d)"

text \<open>
  \<^verbatim>\<open>trim\<close> removes white space and line terminators from both ends; below 256 these are
  the code units 9 to 13, 32 and 160.
\<close>

definition is_space :: "char \<Rightarrow> bool" where
  "is_space c = ((of_char c :: nat) \<in> {9, 10, 11, 12, 13, 32, 160})"

definition trim :: "string \<Rightarrow> string" where
  "trim s = rev (dropWhile is_space (rev (dropWhile is_space s)))"

definition lower_char :: "char \<Rightarrow> char" where
  "lower_char c =
     (let n = (of_char c :: nat)
      in if (65 \<le> n \<and> n \<le> 90) \<or> (192 \<le> n \<and> n \<le> 222 \<and> n \<noteq> 215)
         then char_of (n + 32) else c)"

definition toLowerCase :: "string \<Rightarrow> string" where
  "toLowerCase s = map lower_char s"

definition slice :: "nat \<Rightarrow> nat \<Rightarrow> string \<Rightarrow> string" where
  "slice i j s = take (j - i) (drop i s)"

subsection \<open>Type coercion\<close>

definition toNumber :: "builtins \<Rightarrow> jsval \<Rightarrow> rat option" where
  "toNumber B v =
     (case v of
        JNum (Fin x) \<Rightarrow> Some x
      | _ \<Rightarrow>
          if blank v then None
          else (case parseFloat B (filter (\<lambda>c. c \<noteq> CHR '','') (String_of B v)) of
                  Fin n \<Rightarrow> Some n
                | _ \<Rightarrow> None))"

definition normalizeBoolean :: "builtins \<Rightarrow> jsval \<Rightarrow> bool option" where
  "normalizeBoolean B v =
     (case v of
        JBool b \<Rightarrow> Some b
      | _ \<Rightarrow>
          if blank v then None
          else (let s = toLowerCase (trim (String_of B v))
                in if s \<in> set [''true'', ''yes'', ''y'', ''1''] then Some True
                   else if s \<in> set [''false'', ''no'', ''n'', ''0''] then Some False
                   else None))"

subsection \<open>Dates\<close>

text \<open>
  \<^verbatim>\<open>Date.prototype.toISOString\<close> as ECMAScript defines it, on a time value: the UTC
  fields of the proleptic Gregorian calendar, a four digit year from 0 to 9999 and a
  signed six digit year otherwise.
\<close>

definition digit_char :: "int \<Rightarrow> char" where
  "digit_char d = char_of (48 + d mod 10)"

text \<open>A number in decimal, padded with zeros to a width of two, three, four and six.\<close>

definition pad2 :: "int \<Rightarrow> string" where
  "pad2 k = [digit_char (k div 10), digit_char k]"

definition pad3 :: "int \<Rightarrow> string" where
  "pad3 k = [digit_char (k div 100), digit_char (k div 10), digit_char k]"

definition pad4 :: "int \<Rightarrow> string" where
  "pad4 k = [digit_char (k div 1000), digit_char (k div 100), digit_char (k div 10), digit_char k]"

definition pad6 :: "int \<Rightarrow> string" where
  "pad6 k =
     [digit_char (k div 100000), digit_char (k div 10000), digit_char (k div 1000),
      digit_char (k div 100), digit_char (k div 10), digit_char k]"

definition civil :: "int \<Rightarrow> int \<times> int \<times> int" where
  "civil day =
     (let z = day + 719468;
          era = z div 146097;
          doe = z mod 146097;
          yoe = (doe - doe div 1460 + doe div 36524 - doe div 146096) div 365;
          y = yoe + era * 400;
          doy = doe - (365 * yoe + yoe div 4 - yoe div 100);
          mp = (5 * doy + 2) div 153;
          d = doy - (153 * mp + 2) div 5 + 1;
          m = (if mp < 10 then mp + 3 else mp - 9)
      in (if m \<le> 2 then y + 1 else y, m, d))"

definition year_text :: "int \<Rightarrow> string" where
  "year_text y =
     (if 0 \<le> y \<and> y \<le> 9999 then pad4 y
      else (if y < 0 then ''-'' else ''+'') @ pad6 \<bar>y\<bar>)"

definition hour_of :: "int \<Rightarrow> int" where
  "hour_of t = t mod 86400000 div 3600000"

definition minute_of :: "int \<Rightarrow> int" where
  "minute_of t = t mod 86400000 div 60000 mod 60"

definition second_of :: "int \<Rightarrow> int" where
  "second_of t = t mod 86400000 div 1000 mod 60"

definition milli_of :: "int \<Rightarrow> int" where
  "milli_of t = t mod 1000"

definition year_of :: "int \<Rightarrow> int" where
  "year_of t = fst (civil (t div 86400000))"

definition toISOString :: "int \<Rightarrow> string" where
  "toISOString t =
     (case civil (t div 86400000) of (y, m, d) \<Rightarrow>
        year_text y @ ''-'' @ pad2 m @ ''-'' @ pad2 d @ ''T''
        @ pad2 (hour_of t) @ '':'' @ pad2 (minute_of t) @ '':''
        @ pad2 (second_of t) @ ''.'' @ pad3 (milli_of t) @ ''Z'')"

text \<open>
  \<^verbatim>\<open>TimeClip\<close> of a number: no time value beyond 8.64e15 ms or for a non-finite number,
  otherwise the number truncated towards zero.
\<close>

definition timeClip :: "jsnum \<Rightarrow> int option" where
  "timeClip n =
     (case n of
        Fin x \<Rightarrow> if \<bar>x\<bar> > 8640000000000000 then None
                 else Some (if 0 \<le> x then \<lfloor>x\<rfloor> else \<lceil>x\<rceil>)
      | _ \<Rightarrow> None)"

text \<open>\<^verbatim>\<open>v instanceof Date ? v : new Date(v)\<close>, as the time value of the result.\<close>

definition toDate :: "builtins \<Rightarrow> jsval \<Rightarrow> int option" where
  "toDate B v =
     (case v of
        JDate d \<Rightarrow> d
      | JStr s \<Rightarrow> dateParse B s
      | JNum n \<Rightarrow> timeClip n
      | JBool b \<Rightarrow> Some (if b then 1 else 0)
      | JNull \<Rightarrow> Some 0
      | JUndefined \<Rightarrow> None)"

definition normalizeDate :: "builtins \<Rightarrow> jsval \<Rightarrow> string option" where
  "normalizeDate B v =
     (if blank v then None
      else (case toDate B v of
              None \<Rightarrow> None
            | Some t \<Rightarrow>
                (let iso = toISOString t
                 in Some (if slice 11 19 iso = ''00:00:00'' then slice 0 10 iso else iso))))"

subsection \<open>Quantiles, winsorization, mode\<close>

record quartiles =
  q1 :: rat
  q2 :: rat
  q3 :: rat

text \<open>
  The closure \<^verbatim>\<open>q\<close> of \<^verbatim>\<open>quantiles\<close>, on the sorted array. \<^verbatim>\<open>a[base + 1]\<close> beyond the
  end is \<^verbatim>\<open>undefined\<close>, the sum is then \<^verbatim>\<open>NaN\<close> and \<^verbatim>\<open>||\<close> falls back to \<^verbatim>\<open>a[base]\<close>;
  \<^verbatim>\<open>||\<close> falls back in the same way when the sum is 0.
\<close>

definition quantiles_q :: "rat list \<Rightarrow> rat \<Rightarrow> rat" where
  "quantiles_q a p =
     (if length a = 0 then 0
      else (let pos = of_nat (length a - 1) * p;
                base = nat \<lfloor>pos\<rfloor>;
                rest = pos - of_nat base
            in if base + 1 < length a
               then (let r = a ! base + (a ! (base + 1) - a ! base) * rest
                     in if r = 0 then a ! base else r)
               else a ! base))"

definition quantiles :: "rat list \<Rightarrow> quartiles" where
  "quantiles arr =
     (let a = sort arr
      in \<lparr>q1 = quantiles_q a (1 / 4), q2 = quantiles_q a (1 / 2), q3 = quantiles_q a (3 / 4)\<rparr>)"

definition winsorize :: "rat list \<Rightarrow> rat list" where
  "winsorize arr =
     (if length arr < 5 then arr
      else (let Q = quantiles arr;
                iqr = q3 Q - q1 Q;
                lo = q1 Q - 3 / 2 * iqr;
                hi = q3 Q + 3 / 2 * iqr
            in map (\<lambda>v. if v < lo then lo else if v > hi then hi else v) arr))"

text \<open>
  A \<^verbatim>\<open>Map\<close> keeps its entries in insertion order: \<^verbatim>\<open>set\<close> on a key it has replaces the
  value in place, and appends the entry otherwise.
\<close>

fun map_get :: "'k \<Rightarrow> ('k \<times> 'v) list \<Rightarrow> 'v option" where
  "map_get k [] = None"
| "map_get k ((k', v) # es) = (if k' = k then Some v else map_get k es)"

fun map_set :: "'k \<Rightarrow> 'v \<Rightarrow> ('k \<times> 'v) list \<Rightarrow> ('k \<times> 'v) list" where
  "map_set k v [] = [(k, v)]"
| "map_set k v ((k', v') # es) = (if k' = k then (k', v) # es else (k', v') # map_set k v es)"

text \<open>\<^verbatim>\<open>map.set(v, (map.get(v) || 0) + 1)\<close>, and the loop that runs it over the array.\<close>

definition tally_step :: "('a \<times> nat) list \<Rightarrow> 'a \<Rightarrow> ('a \<times> nat) list" where
  "tally_step m v = map_set v ((case map_get v m of None \<Rightarrow> 0 | Some c \<Rightarrow> c) + 1) m"

definition tally :: "'a list \<Rightarrow> ('a \<times> nat) list" where
  "tally arr = foldl tally_step [] arr"

text \<open>
  \<^verbatim>\<open>sort((a, b) => b[1] - a[1])\<close> is a stable sort by descending count; \<^const>\<open>sort_key\<close>
  is stable, and the key is the negated count.
\<close>

definition mode :: "'a list \<Rightarrow> 'a option" where
  "mode arr =
     (if length arr = 0 then None
      else Some (fst (hd (sort_key (\<lambda>e. - int (snd e)) (tally arr)))))"

subsection \<open>cleanData\<close>

type_synonym medians = "string \<Rightarrow> rat option"
type_synonym modes = "string \<Rightarrow> jsval option"

text \<open>
  The samples of a column that the first loop summarizes: the cells that coerce, in row
  order.
\<close>

definition column_nums :: "builtins \<Rightarrow> string \<Rightarrow> row list \<Rightarrow> rat list" where
  "column_nums B k rs = List.map_filter (\<lambda>rr. toNumber B (cell rr k)) rs"

definition bool_vals :: "builtins \<Rightarrow> string \<Rightarrow> row list \<Rightarrow> bool list" where
  "bool_vals B k rs = List.map_filter (\<lambda>rr. normalizeBoolean B (cell rr k)) rs"

definition text_vals :: "builtins \<Rightarrow> string \<Rightarrow> row list \<Rightarrow> string list" where
  "text_vals B k rs =
     filter (\<lambda>s. s \<noteq> [])
       (List.map_filter
          (\<lambda>rr. if blank (cell rr k) then None else Some (trim (String_of B (cell rr k)))) rs)"

text \<open>The body of the first loop over the profile: the fill value of one column.\<close>

definition summarize :: "builtins \<Rightarrow> row list \<Rightarrow> medians \<times> modes \<Rightarrow> column \<Rightarrow> medians \<times> modes" where
  "summarize B rs S col =
     (case S of (meds, mods) \<Rightarrow>
        (let k = cname col in
         if ctype col = ''numeric'' then
           (let nums = column_nums B k rs
            in if length nums \<noteq> 0 then (meds(k \<mapsto> q2 (quantiles nums)), mods)
               else (meds, mods))
         else if ctype col = ''boolean'' then
           (case mode (bool_vals B k rs) of
              None \<Rightarrow> (meds, mods)
            | Some m \<Rightarrow> (meds, mods(k \<mapsto> JBool m)))
         else if ctype col = ''categorical'' \<or> ctype col = ''text'' then
           (case mode (text_vals B k rs) of
              None \<Rightarrow> (meds, mods)
            | Some m \<Rightarrow> (meds, mods(k \<mapsto> JStr m)))
         else (meds, mods)))"

text \<open>
  \<^verbatim>\<open>converted\<close> of the numeric branch: the column coerced, the median in place of what
  did not coerce.
\<close>

definition converted :: "builtins \<Rightarrow> rat \<Rightarrow> string \<Rightarrow> row list \<Rightarrow> rat list" where
  "converted B median k out =
     map (\<lambda>v. case v of None \<Rightarrow> median | Some x \<Rightarrow> x) (map (\<lambda>rr. toNumber B (cell rr k)) out)"

text \<open>The body of the second loop: one column of \<^verbatim>\<open>out\<close> rewritten, one report line.\<close>

definition transform :: "builtins \<Rightarrow> medians \<times> modes \<Rightarrow> row list \<times> string list \<Rightarrow> column
    \<Rightarrow> row list \<times> string list" where
  "transform B S st col =
     (case S of (meds, mods) \<Rightarrow> case st of (out, report) \<Rightarrow>
        (let k = cname col in
         if ctype col = ''numeric'' then
           (let median = (case meds k of None \<Rightarrow> 0 | Some m \<Rightarrow> m);
                clipped = winsorize (converted B median k out)
            in (map (\<lambda>i. (out ! i)(k \<mapsto> JNum (Fin (clipped ! i)))) [0..<length out],
                report @ [k @ '': converted to number, imputed median '' @ toFixed2 B median
                            @ '', winsorized outliers'']))
         else if ctype col = ''datetime'' then
           (map (\<lambda>rr. rr(k \<mapsto> (case normalizeDate B (cell rr k) of
                                  None \<Rightarrow> cell rr k
                                | Some s \<Rightarrow> JStr s))) out,
            report @ [k @ '': normalized dates to ISO (YYYY-MM-DD or ISO 8601)''])
         else if ctype col = ''boolean'' then
           (let m = mods k
            in (map (\<lambda>rr. rr(k \<mapsto> (case normalizeBoolean B (cell rr k) of
                                       None \<Rightarrow> (case m of None \<Rightarrow> JBool False | Some b \<Rightarrow> b)
                                     | Some v \<Rightarrow> JBool v))) out,
                report @ [k @ '': normalized booleans and filled missing with mode'']))
         else if ctype col = ''categorical'' \<or> ctype col = ''text'' then
           (let m = (case mods k of None \<Rightarrow> JStr ''Unknown'' | Some s \<Rightarrow> s)
            in (map (\<lambda>rr. (let v = cell rr k
                           in rr(k \<mapsto> (if blank v then m else JStr (trim (String_of B v)))))) out,
                report @ [k @ '': trimmed text and filled missing with '' @ [CHR 0x27]
                            @ String_of B m @ [CHR 0x27]]))
         else (out, report)))"

record CleaningResult =
  rows :: "row list"
  report :: "string list"

text \<open>The maps \<^verbatim>\<open>medians\<close> and \<^verbatim>\<open>modes\<close> when the first loop has run.\<close>

definition summaries :: "builtins \<Rightarrow> row list \<Rightarrow> DatasetProfile \<Rightarrow> medians \<times> modes" where
  "summaries B rs profile = foldl (summarize B rs) (Map.empty, Map.empty) (columns profile)"

text \<open>
  \<^verbatim>\<open>out\<close> starts as a copy of every row; the second loop reads and writes \<^verbatim>\<open>out\<close> only,
  the first reads \<^verbatim>\<open>rows\<close> only.
\<close>

definition cleanData :: "builtins \<Rightarrow> row list \<Rightarrow> DatasetProfile \<Rightarrow> CleaningResult" where
  "cleanData B rs profile =
     (let out = map (\<lambda>r. r) rs;
          st = foldl (transform B (summaries B rs profile)) (out, []) (columns profile)
      in \<lparr>rows = fst st, report = snd st\<rparr>)"


subsection \<open>cleanData on a store of objects\<close>

text \<open>
  The rows are objects, and the second loop assigns to properties of objects. To see that
  these assignments never reach an input row, the same code is embedded once more with
  the objects in a store: a row is a reference (an index into the store),
  \<^verbatim>\<open>rows.map((r) => ({ ...r }))\<close> allocates one new object per row, and an assignment
  \<^verbatim>\<open>rr[name] = v\<close> updates the object that \<^verbatim>\<open>rr\<close> refers to. The input may hold the same
  object in several rows.
\<close>

type_synonym store = "row list"

definition deref :: "store \<Rightarrow> nat list \<Rightarrow> row list" where
  "deref h refs = map (\<lambda>a. h ! a) refs"

definition assign :: "string \<Rightarrow> store \<Rightarrow> nat \<Rightarrow> jsval \<Rightarrow> store" where
  "assign k h a v = h[a := (h ! a)(k \<mapsto> v)]"

definition transform_store :: "builtins \<Rightarrow> medians \<times> modes \<Rightarrow> nat list \<Rightarrow> store \<times> string list
    \<Rightarrow> column \<Rightarrow> store \<times> string list" where
  "transform_store B S out st col =
     (case S of (meds, mods) \<Rightarrow> case st of (h, rep) \<Rightarrow>
        (let k = cname col in
         if ctype col = ''numeric'' then
           (let median = (case meds k of None \<Rightarrow> 0 | Some m \<Rightarrow> m);
                clipped = winsorize (converted B median k (deref h out))
            in (foldl (\<lambda>h i. assign k h (out ! i) (JNum (Fin (clipped ! i)))) h [0..<length out],
                rep @ [k @ '': converted to number, imputed median '' @ toFixed2 B median
                            @ '', winsorized outliers'']))
         else if ctype col = ''datetime'' then
           (foldl (\<lambda>h rr. assign k h rr (case normalizeDate B (cell (h ! rr) k) of
                                             None \<Rightarrow> cell (h ! rr) k
                                           | Some s \<Rightarrow> JStr s)) h out,
            rep @ [k @ '': normalized dates to ISO (YYYY-MM-DD or ISO 8601)''])
         else if ctype col = ''boolean'' then
           (let m = mods k
            in (foldl (\<lambda>h rr. assign k h rr (case normalizeBoolean B (cell (h ! rr) k) of
                                                 None \<Rightarrow> (case m of None \<Rightarrow> JBool False | Some b \<Rightarrow> b)
                                               | Some v \<Rightarrow> JBool v)) h out,
                rep @ [k @ '': normalized booleans and filled missing with mode'']))
         else if ctype col = ''categorical'' \<or> ctype col = ''text'' then
           (let m = (case mods k of None \<Rightarrow> JStr ''Unknown'' | Some s \<Rightarrow> s)
            in (foldl (\<lambda>h rr. (let v = cell (h ! rr) k
                                in assign k h rr (if blank v then m else JStr (trim (String_of B v))))) h out,
                rep @ [k @ '': trimmed text and filled missing with '' @ [CHR 0x27]
                            @ String_of B m @ [CHR 0x27]]))
         else (h, rep)))"

record StoreResult =
  store_after :: store
  row_refs :: "nat list"
  report_lines :: "string list"

definition cleanData_store :: "builtins \<Rightarrow> store \<Rightarrow> nat list \<Rightarrow> DatasetProfile \<Rightarrow> StoreResult" where
  "cleanData_store B h rs profile =
     (let out = [length h..<length h + length rs];
          h0 = h @ deref h rs;
          S = summaries B (deref h0 rs) profile;
          st = foldl (transform_store B S out) (h0, []) (columns profile)
      in \<lparr>store_after = fst st, row_refs = out, report_lines = snd st\<rparr>)"

subsection \<open>Reference notions used in the statements\<close>

text \<open>The column types that the two loops of \<^const>\<open>cleanData\<close> have a branch for.\<close>

definition supported :: "column \<Rightarrow> bool" where
  "supported col =
     (ctype col \<in> set [''numeric'', ''datetime'', ''boolean'', ''categorical'', ''text''])"

text \<open>A report line of a column: the column's name, a colon and a space, then the text.\<close>

definition entry_for :: "column \<Rightarrow> string \<Rightarrow> bool" where
  "entry_for col e = (take (length (cname col) + 2) e = cname col @ '': '')"

text \<open>
  The value that fills the cells of a numeric column \<open>k\<close> that do not coerce: the median
  that the first loop records, 0 when it records none.
\<close>

definition numeric_fill :: "builtins \<Rightarrow> string \<Rightarrow> row list \<Rightarrow> rat" where
  "numeric_fill B k rs =
     (if column_nums B k rs = [] then 0 else q2 (quantiles (column_nums B k rs)))"

text \<open>The clipping range \<open>[q1 - 1.5 IQR, q3 + 1.5 IQR]\<close> that a sample gives.\<close>

definition fences :: "rat list \<Rightarrow> rat \<times> rat" where
  "fences arr =
     (let Q = quantiles arr; iqr = q3 Q - q1 Q
      in (q1 Q - 3 / 2 * iqr, q3 Q + 3 / 2 * iqr))"

text \<open>
  The value that fills the missing cells of a categorical or text column \<open>k\<close>: the mode
  that the first loop records, \<^verbatim>\<open>"Unknown"\<close> when it records none.
\<close>

definition text_fill :: "builtins \<Rightarrow> string \<Rightarrow> row list \<Rightarrow> jsval" where
  "text_fill B k rs =
     (case mode (text_vals B k rs) of None \<Rightarrow> JStr ''Unknown'' | Some m \<Rightarrow> JStr m)"

text \<open>The time of day of a time value, in milliseconds after midnight UTC.\<close>

definition time_of_day :: "int \<Rightarrow> int" where
  "time_of_day t = t mod 86400000"

text \<open>The date-only string \<^verbatim>\<open>YYYY-MM-DD\<close> of a time value.\<close>

definition date_only :: "int \<Rightarrow> string" where
  "date_only t =
     (case civil (t div 86400000) of (y, m, d) \<Rightarrow>
        year_text y @ ''-'' @ pad2 m @ ''-'' @ pad2 d)"

text \<open>
  Closed examples need the engine functions fixed. The examples below hold finite
  numbers, booleans, \<^verbatim>\<open>null\<close>, \<^verbatim>\<open>Date\<close> objects and, outside numeric and datetime
  columns, text; on such cells the cleaned rows do not call an engine function, so any
  interpretation gives the same rows.
\<close>

definition no_builtins :: builtins where
  "no_builtins =
     \<lparr>parseFloat = (\<lambda>s. NaN), numberToString = (\<lambda>n. []), dateToString = (\<lambda>d. []),
      dateParse = (\<lambda>s. None), toFixed2 = (\<lambda>x. [])\<rparr>"

text \<open>
  The canonical form of a date cell: the string that \<^const>\<open>normalizeDate\<close> writes for a time
  value.
\<close>

definition canonical_date :: "int \<Rightarrow> string" where
  "canonical_date t =
     (let iso = toISOString t
      in if slice 11 19 iso = ''00:00:00'' then slice 0 10 iso else iso)"

text \<open>
  \<^verbatim>\<open>Date.parse\<close> is an engine function. ECMAScript requires it to read the date-time
  format that \<^verbatim>\<open>toISOString\<close> writes, and to read a date without a time as midnight UTC of
  that day. \<open>reads_back B t\<close> says that the engine \<open>B\<close> does so for the two strings of
  the time value \<open>t\<close>.
\<close>

definition reads_back :: "builtins \<Rightarrow> int \<Rightarrow> bool" where
  "reads_back B t =
     (dateParse B (toISOString t) = Some t \<and>
      dateParse B (date_only t) = Some (t - time_of_day t))"

text \<open>
  An engine for the examples on dates. Its \<^verbatim>\<open>Date.parse\<close> reads the two forms
  \<^verbatim>\<open>YYYY-MM-DD\<close> and \<^verbatim>\<open>YYYY-MM-DDTHH:mm:ss.sssZ\<close>, with a four digit or a signed six digit
  year: it takes the fields from their places, computes the time value, and accepts it
  when that time value is written as the very string. Any other string is no date for it.
\<close>

definition number :: "string \<Rightarrow> int option" where
  "number s =
     (if s \<noteq> [] \<and> list_all (\<lambda>c. 48 \<le> (of_char c :: int) \<and> (of_char c :: int) \<le> 57) s
      then Some (foldl (\<lambda>n c. 10 * n + (of_char c - 48)) 0 s) else None)"

definition days_from_civil :: "int \<Rightarrow> int \<Rightarrow> int \<Rightarrow> int" where
  "days_from_civil y m d =
     (let y' = (if m \<le> 2 then y - 1 else y);
          era = y' div 400;
          yoe = y' mod 400;
          doy = (153 * (if m > 2 then m - 3 else m + 9) + 2) div 5 + d - 1;
          doe = yoe * 365 + yoe div 4 - yoe div 100 + doy
      in era * 146097 + doe - 719468)"

definition iso_parse :: "string \<Rightarrow> int option" where
  "iso_parse s =
     (let signed = (take 1 s = ''+'' \<or> take 1 s = ''-'');
          n = (if signed then 7 else 4);
          year = (if signed
                  then map_option (\<lambda>y. if take 1 s = ''-'' then - y else y) (number (slice 1 7 s))
                  else number (take 4 s))
      in case (year, number (slice (n + 1) (n + 3) s), number (slice (n + 4) (n + 6) s)) of
           (Some y, Some m, Some d) \<Rightarrow>
             (let day = days_from_civil y m d * 86400000
              in if length s = n + 6
                 then (if date_only day = s then Some day else None)
                 else (case (number (slice (n + 7) (n + 9) s), number (slice (n + 10) (n + 12) s),
                             number (slice (n + 13) (n + 15) s), number (slice (n + 16) (n + 19) s)) of
                         (Some h, Some mi, Some sec, Some ms) \<Rightarrow>
                           (let t = day + h * 3600000 + mi * 60000 + sec * 1000 + ms
                            in if toISOString t = s then Some t else None)
                       | _ \<Rightarrow> None))
         | _ \<Rightarrow> None)"

definition iso_engine :: builtins where
  "iso_engine = no_builtins\<lparr>dateParse := iso_parse\<rparr>"

text \<open>A table with the single column \<open>k\<close>, one row per value.\<close>

definition one_column :: "string \<Rightarrow> jsval list \<Rightarrow> row list" where
  "one_column k vs = map (\<lambda>v. [k \<mapsto> v]) vs"

text \<open>Cells that hold the given finite numbers.\<close>

definition numbers :: "rat list \<Rightarrow> jsval list" where
  "numbers xs = map (\<lambda>x. JNum (Fin x)) xs"

definition profile_of :: "string \<Rightarrow> string \<Rightarrow> DatasetProfile" where
  "profile_of k t = \<lparr>columns = [\<lparr>cname = k, ctype = t\<rparr>]\<rparr>"

text \<open>
  The linear interpolation of the sorted sample at position \<open>(count - 1) * p\<close>, written
  as the specification words it; it is compared with what \<^const>\<open>quantiles\<close> returns. It
  is used on samples of two or more values only, where both indices are in range.
\<close>

definition interpolated :: "rat list \<Rightarrow> rat \<Rightarrow> rat" where
  "interpolated arr p =
     (let a = sort arr;
          pos = of_nat (length a - 1) * p;
          i = nat \<lfloor>pos\<rfloor>
      in a ! i + (a ! (i + 1) - a ! i) * (pos - of_nat i))"

section \<open>Properties\<close>

subsection \<open>Quantiles\<close>

text \<open>
  Claim C1 says that \<^const>\<open>quantiles\<close> returns the linear interpolation for every non-empty
  sample. The fallback \<^verbatim>\<open>|| a[base]\<close>, there for the \<^verbatim>\<open>NaN\<close> of a one element sample,
  also fires when the interpolated value is 0: the median of \<open>[-1, 1]\<close> interpolates to 0
  and \<^const>\<open>quantiles\<close> returns \<open>-1\<close>.
\<close>

theorem quantiles_median_of_minus_one_and_one:
  "q2 (quantiles [-1, 1]) = -1 \<and> interpolated [-1, 1] (1 / 2) = 0"
  by code_simp

subsection \<open>Mode\<close>

lemma hd_insort_key:
  "hd (insort_key f x ys) = (if ys = [] \<or> f x \<le> f (hd ys) then x else hd ys)"
  by (cases ys) auto

lemma sort_key_Nil_iff: "sort_key f xs = [] \<longleftrightarrow> xs = []"
  by (metis length_sort length_0_conv)

lemma hd_sort_key_least:
  assumes "xs \<noteq> []" "y \<in> set xs"
  shows "f (hd (sort_key f xs)) \<le> f y"
proof -
  obtain z zs where s: "sort_key f xs = z # zs"
    using assms(1) sort_key_Nil_iff [of f xs] by (cases "sort_key f xs") auto
  have "sorted (map f (z # zs))" using sorted_sort_key [of f xs] s by simp
  moreover have "y \<in> set (z # zs)" using assms(2) s set_sort [of f xs] by metis
  ultimately show ?thesis using s by auto
qed

lemma hd_sort_key_find:
  "xs \<noteq> [] \<Longrightarrow> List.find (\<lambda>e. \<forall>e'\<in>set xs. f e \<le> f e') xs = Some (hd (sort_key f xs))"
proof (induction xs)
  case Nil
  then show ?case by simp
next
  case (Cons x xs)
  show ?case
  proof (cases "xs = []")
    case True
    then show ?thesis by simp
  next
    case False
    let ?h = "hd (sort_key f xs)"
    have least: "\<forall>y\<in>set xs. f ?h \<le> f y"
      using hd_sort_key_least [OF False] by blast
    have hin: "?h \<in> set xs"
      using False sort_key_Nil_iff [of f xs] set_sort [of f xs] hd_in_set by metis
    have hd_eq: "hd (sort_key f (x # xs)) = (if f x \<le> f ?h then x else ?h)"
      using False by (simp add: hd_insort_key sort_key_Nil_iff)
    show ?thesis
    proof (cases "f x \<le> f ?h")
      case True
      then have "\<forall>e'\<in>set (x # xs). f x \<le> f e'" using least by auto
      then show ?thesis using hd_eq True by simp
    next
      case lt: False
      then have nx: "\<not> (\<forall>e'\<in>set (x # xs). f x \<le> f e')" using hin by auto
      have "List.find (\<lambda>e. \<forall>e'\<in>set (x # xs). f e \<le> f e') xs
            = List.find (\<lambda>e. \<forall>e'\<in>set xs. f e \<le> f e') xs"
      proof (rule find_cong [OF refl])
        fix e assume "e \<in> set xs"
        show "(\<forall>e'\<in>set (x # xs). f e \<le> f e') = (\<forall>e'\<in>set xs. f e \<le> f e')"
        proof
          assume a: "\<forall>e'\<in>set xs. f e \<le> f e'"
          then have "f e \<le> f ?h" using hin by blast
          then have "f e \<le> f x" using lt by simp
          then show "\<forall>e'\<in>set (x # xs). f e \<le> f e'" using a by simp
        qed simp
      qed
      moreover have "List.find (\<lambda>e. \<forall>e'\<in>set (x # xs). f e \<le> f e') (x # xs)
            = List.find (\<lambda>e. \<forall>e'\<in>set (x # xs). f e \<le> f e') xs"
        using nx by (auto simp del: set_simps)
      moreover have "hd (sort_key f (x # xs)) = ?h" using hd_eq lt by simp
      ultimately show ?thesis using Cons.IH [OF False] by (simp del: set_simps find.simps)
    qed
  qed
qed


lemma map_get_map_set:
  "map_get k' (map_set k v es) = (if k' = k then Some v else map_get k' es)"
  by (induction es) auto

lemma map_get_None_iff: "map_get k es = None \<longleftrightarrow> k \<notin> fst ` set es"
  by (induction es) (auto simp: image_iff split: if_splits)

lemma keys_map_set_old: "k \<in> fst ` set es \<Longrightarrow> map fst (map_set k v es) = map fst es"
  by (induction es) (auto simp: rev_image_eqI)

lemma keys_map_set_new: "k \<notin> fst ` set es \<Longrightarrow> map fst (map_set k v es) = map fst es @ [k]"
  by (induction es) auto

lemma keys_map_set:
  "map fst (map_set k v es) = (if k \<in> fst ` set es then map fst es else map fst es @ [k])"
  by (simp add: keys_map_set_old keys_map_set_new)

lemma tally_snoc: "tally (xs @ [x]) = tally_step (tally xs) x"
  by (simp add: tally_def)

lemma keys_tally_step:
  "map fst (tally_step m v) = (if v \<in> fst ` set m then map fst m else map fst m @ [v])"
  by (simp add: tally_step_def keys_map_set)

lemma set_keys_tally: "fst ` set (tally xs) = set xs"
proof (induction xs rule: rev_induct)
  case Nil
  then show ?case by (simp add: tally_def)
next
  case (snoc x xs)
  have "set (map fst (tally xs)) = set xs" using snoc by simp
  then have "set (map fst (tally (xs @ [x]))) = insert x (set xs)"
    unfolding tally_snoc keys_tally_step using snoc by (simp add: insert_absorb)
  then show ?case by simp
qed

lemma distinct_keys_tally: "distinct (map fst (tally xs))"
proof (induction xs rule: rev_induct)
  case Nil
  then show ?case by (simp add: tally_def)
next
  case (snoc x xs)
  then show ?case by (auto simp: tally_snoc keys_tally_step)
qed

lemma map_get_tally:
  "map_get k (tally xs) = (if k \<in> set xs then Some (count_list xs k) else None)"
proof (induction xs rule: rev_induct)
  case Nil
  then show ?case by (simp add: tally_def)
next
  case (snoc x xs)
  then show ?case
    by (auto simp: tally_snoc tally_step_def map_get_map_set count_list_0_iff)
qed

lemma map_get_distinct: "distinct (map fst es) \<Longrightarrow> (k, c) \<in> set es \<Longrightarrow> map_get k es = Some c"
  by (induction es) (auto simp: rev_image_eqI)

lemma snd_tally: "e \<in> set (tally xs) \<Longrightarrow> snd e = count_list xs (fst e)"
  using map_get_distinct [OF distinct_keys_tally, of "fst e" "snd e" xs] map_get_tally [of "fst e" xs]
  by (auto split: if_splits)

lemma find_snoc:
  "List.find P (xs @ [x]) = (case List.find P xs of Some y \<Rightarrow> Some y | None \<Rightarrow> if P x then Some x else None)"
  by (induction xs) auto

lemma find_keys_tally: "List.find P (map fst (tally xs)) = List.find P xs"
proof (induction xs rule: rev_induct)
  case Nil
  then show ?case by (simp add: tally_def)
next
  case (snoc x xs)
  show ?case
  proof (cases "x \<in> set xs")
    case True
    then have "map fst (tally (xs @ [x])) = map fst (tally xs)"
      using set_keys_tally [of xs] by (simp add: tally_snoc keys_tally_step)
    moreover have "P x \<Longrightarrow> List.find P xs \<noteq> None"
      using True by (auto simp: find_None_iff)
    ultimately show ?thesis using snoc by (auto simp: find_snoc split: option.splits)
  next
    case False
    then have "map fst (tally (xs @ [x])) = map fst (tally xs) @ [x]"
      using set_keys_tally [of xs] by (simp add: tally_snoc keys_tally_step)
    then show ?thesis using snoc by (simp add: find_snoc)
  qed
qed

lemma find_map_fst: "List.find P (map f xs) = map_option f (List.find (\<lambda>x. P (f x)) xs)"
  by (induction xs) auto

lemma mode_find:
  "mode xs = List.find (\<lambda>v. \<forall>w\<in>set xs. count_list xs w \<le> count_list xs v) xs"
proof (cases "xs = []")
  case True
  then show ?thesis by (simp add: mode_def)
next
  case False
  let ?es = "tally xs"
  let ?f = "\<lambda>e::'a \<times> nat. - int (snd e)"
  have ne: "?es \<noteq> []" using False set_keys_tally [of xs] by auto
  have "Some (hd (sort_key ?f ?es)) = List.find (\<lambda>e. \<forall>e'\<in>set ?es. ?f e \<le> ?f e') ?es"
    using hd_sort_key_find [OF ne, of ?f] by simp
  also have "\<dots> = List.find (\<lambda>e. \<forall>w\<in>set xs. count_list xs w \<le> count_list xs (fst e)) ?es"
  proof (rule find_cong [OF refl])
    fix e assume e: "e \<in> set ?es"
    have "(\<forall>e'\<in>set ?es. snd e' \<le> snd e) = (\<forall>w\<in>set xs. count_list xs w \<le> count_list xs (fst e))"
    proof
      assume a: "\<forall>e'\<in>set ?es. snd e' \<le> snd e"
      show "\<forall>w\<in>set xs. count_list xs w \<le> count_list xs (fst e)"
      proof
        fix w assume "w \<in> set xs"
        then have "w \<in> fst ` set ?es" using set_keys_tally [of xs] by simp
        then obtain e' where e': "e' \<in> set ?es" "fst e' = w" by force
        then show "count_list xs w \<le> count_list xs (fst e)"
          using a snd_tally [OF e] snd_tally [OF e'(1)] by auto
      qed
    next
      assume a: "\<forall>w\<in>set xs. count_list xs w \<le> count_list xs (fst e)"
      show "\<forall>e'\<in>set ?es. snd e' \<le> snd e"
      proof
        fix e' assume e': "e' \<in> set ?es"
        then have "fst e' \<in> set xs" using set_keys_tally [of xs] by auto
        then show "snd e' \<le> snd e" using a snd_tally [OF e] snd_tally [OF e'] by auto
      qed
    qed
    then show "(\<forall>e'\<in>set ?es. ?f e \<le> ?f e') = (\<forall>w\<in>set xs. count_list xs w \<le> count_list xs (fst e))"
      by simp
  qed
  finally have "Some (fst (hd (sort_key ?f ?es)))
      = List.find (\<lambda>v. \<forall>w\<in>set xs. count_list xs w \<le> count_list xs v) (map fst ?es)"
    by (simp add: find_map_fst)
       (metis option.simps(9))
  then show ?thesis using False by (simp add: mode_def find_keys_tally)
qed


text \<open>
  Claim C6: \<^const>\<open>mode\<close> of the empty list is missing; on a non-empty list it returns a
  value \<open>v\<close> of the list that no value outnumbers, and every value met before the first
  \<open>v\<close> occurs strictly less often, so among the values that share the highest count
  \<open>v\<close> is the one met first.
\<close>

theorem mode_most_frequent_first:
  "mode ([] :: 'a list) = None \<and>
   (xs \<noteq> [] \<longrightarrow>
     (\<exists>v ys zs. mode xs = Some v \<and> xs = ys @ v # zs \<and>
        (\<forall>w. count_list xs w \<le> count_list xs v) \<and>
        (\<forall>w\<in>set ys. count_list xs w < count_list xs v)))"
proof (intro conjI impI)
  show "mode ([] :: 'a list) = None" by (simp add: mode_def)
next
  assume ne: "xs \<noteq> []"
  let ?P = "\<lambda>v. \<forall>w\<in>set xs. count_list xs w \<le> count_list xs v"
  obtain v where v: "mode xs = Some v" using ne by (simp add: mode_def)
  then have "List.find ?P xs = Some v" by (simp add: mode_find)
  then obtain i where i: "i < length xs" "?P (xs ! i)" "v = xs ! i" "\<forall>j<i. \<not> ?P (xs ! j)"
    unfolding find_Some_iff by blast
  have split: "xs = take i xs @ v # drop (Suc i) xs"
    using i(1,3) by (simp add: id_take_nth_drop)
  have most: "\<forall>w. count_list xs w \<le> count_list xs v"
  proof
    fix w
    show "count_list xs w \<le> count_list xs v"
    proof (cases "w \<in> set xs")
      case True
      then show ?thesis using i(2,3) by simp
    next
      case False
      then have "count_list xs w = 0" by (simp add: count_list_0_iff)
      then show ?thesis by simp
    qed
  qed
  have first: "\<forall>w\<in>set (take i xs). count_list xs w < count_list xs v"
  proof
    fix w assume "w \<in> set (take i xs)"
    then obtain j where j: "j < i" "w = xs ! j"
      using i(1) by (auto simp: in_set_conv_nth)
    then have "\<not> ?P w" using i(4) by simp
    then obtain u where "count_list xs w < count_list xs u" by (auto simp: not_le)
    then show "count_list xs w < count_list xs v" using most by (meson less_le_trans)
  qed
  show "\<exists>v ys zs. mode xs = Some v \<and> xs = ys @ v # zs \<and>
        (\<forall>w. count_list xs w \<le> count_list xs v) \<and>
        (\<forall>w\<in>set ys. count_list xs w < count_list xs v)"
    using v split most first by blast
qed

theorem mode_most_frequent_first_witness:
  "[2, 1, 1, 2 :: nat] \<noteq> [] \<and> mode [2, 1, 1, 2 :: nat] = Some 2 \<and>
   (\<exists>v ys zs. mode [2, 1, 1, 2 :: nat] = Some v \<and> [2, 1, 1, 2 :: nat] = ys @ v # zs \<and>
        (\<forall>w. count_list [2, 1, 1, 2 :: nat] w \<le> count_list [2, 1, 1, 2 :: nat] v) \<and>
        (\<forall>w\<in>set ys. count_list [2, 1, 1, 2 :: nat] w < count_list [2, 1, 1, 2 :: nat] v))"
proof -
  have e: "mode [2, 1, 1, 2 :: nat] = Some 2"
    by (simp add: mode_def tally_def tally_step_def)
  have n: "[2, 1, 1, 2 :: nat] \<noteq> []" by simp
  from mode_most_frequent_first [of "[2, 1, 1, 2 :: nat]"] n e show ?thesis by blast
qed


subsection \<open>What one column's pass changes\<close>

lemma cell_upd_same: "cell (rr(k \<mapsto> v)) k = v"
  by (simp add: cell_def)

lemma cell_upd_other: "k' \<noteq> k \<Longrightarrow> cell (rr(k \<mapsto> v)) k' = cell rr k'"
  by (simp add: cell_def)

lemma length_transform: "length (fst (transform B S (out, rep) col)) = length out"
  by (cases S) (simp add: transform_def Let_def)

lemma transform_frame:
  "k \<noteq> cname col \<Longrightarrow> i < length out \<Longrightarrow> (fst (transform B S (out, rep) col) ! i) k = (out ! i) k"
  by (cases S) (simp add: transform_def Let_def)

lemma length_foldl_transform:
  "length (fst (foldl (transform B S) (out, rep) cols)) = length out"
proof (induction cols arbitrary: out rep)
  case Nil
  then show ?case by simp
next
  case (Cons c cols)
  obtain out' rep' where t: "transform B S (out, rep) c = (out', rep')" by (cases "transform B S (out, rep) c")
  have "length out' = length out" using length_transform [of B S out rep c] t by simp
  then show ?case using Cons.IH [of out' rep'] t by simp
qed

lemma foldl_transform_frame:
  "k \<notin> cname ` set cols \<Longrightarrow> i < length out \<Longrightarrow>
   (fst (foldl (transform B S) (out, rep) cols) ! i) k = (out ! i) k"
proof (induction cols arbitrary: out rep)
  case Nil
  then show ?case by simp
next
  case (Cons c cols)
  obtain out' rep' where t: "transform B S (out, rep) c = (out', rep')" by (cases "transform B S (out, rep) c")
  have l: "length out' = length out" using length_transform [of B S out rep c] t by simp
  have "(out' ! i) k = (out ! i) k"
    using transform_frame [of k c i out B S rep] t Cons.prems by simp
  moreover have "(fst (foldl (transform B S) (out', rep') cols) ! i) k = (out' ! i) k"
    using Cons.IH [of out' rep'] Cons.prems l by simp
  ultimately show ?case using t by simp
qed

lemma transform_cong:
  assumes "length out = length out'" "\<forall>i<length out. cell (out ! i) (cname col) = cell (out' ! i) (cname col)"
    and "i < length out"
  shows "cell (fst (transform B S (out, rep) col) ! i) (cname col)
       = cell (fst (transform B S (out', rep') col) ! i) (cname col)"
proof -
  have m: "\<And>f. map (\<lambda>rr. f (cell rr (cname col))) out = map (\<lambda>rr. f (cell rr (cname col))) out'"
    using assms(1,2) by (auto intro: nth_equalityI)
  obtain meds mods where S: "S = (meds, mods)" by (cases S)
  show ?thesis
    using assms m [of "toNumber B"]
    by (simp add: S transform_def Let_def cell_upd_same converted_def cong: option.case_cong)
qed


lemma transform_cell_frame:
  "k \<noteq> cname col \<Longrightarrow> i < length out \<Longrightarrow>
   cell (fst (transform B S (out, rep) col) ! i) k = cell (out ! i) k"
  by (simp add: cell_def transform_frame)

lemma foldl_transform_cell_frame:
  "k \<notin> cname ` set cols \<Longrightarrow> i < length out \<Longrightarrow>
   cell (fst (foldl (transform B S) (out, rep) cols) ! i) k = cell (out ! i) k"
  by (simp add: cell_def foldl_transform_frame)

lemma foldl_transform_own:
  "distinct (map cname cols) \<Longrightarrow> c \<in> set cols \<Longrightarrow> i < length out \<Longrightarrow>
   cell (fst (foldl (transform B S) (out, rep) cols) ! i) (cname c)
     = cell (fst (transform B S (out, rep') c) ! i) (cname c)"
proof (induction cols arbitrary: out rep)
  case Nil
  then show ?case by simp
next
  case (Cons d ds)
  obtain out' rep1 where t: "transform B S (out, rep) d = (out', rep1)"
    by (cases "transform B S (out, rep) d")
  have l: "length out' = length out" using length_transform [of B S out rep d] t by simp
  show ?case
  proof (cases "d = c")
    case True
    have "cname c \<notin> cname ` set ds" using Cons.prems(1) True by auto
    then have "cell (fst (foldl (transform B S) (out', rep1) ds) ! i) (cname c) = cell (out' ! i) (cname c)"
      using foldl_transform_cell_frame [of "cname c" ds i out' B S rep1] Cons.prems(3) l by simp
    moreover have "cell (out' ! i) (cname c) = cell (fst (transform B S (out, rep') c) ! i) (cname c)"
      using transform_cong [of out out c i B S rep rep'] Cons.prems(3) t True by simp
    ultimately show ?thesis using t by simp
  next
    case False
    have cin: "c \<in> set ds" using False Cons.prems(2) by simp
    have "cname d \<notin> cname ` set ds" using Cons.prems(1) by simp
    then have ne: "cname c \<noteq> cname d" using cin by (metis imageI)
    have "cell (fst (foldl (transform B S) (out', rep1) ds) ! i) (cname c)
        = cell (fst (transform B S (out', rep') c) ! i) (cname c)"
      using Cons.IH [of out' rep1] Cons.prems cin l by simp
    moreover have "\<forall>j<length out'. cell (out' ! j) (cname c) = cell (out ! j) (cname c)"
      using transform_cell_frame [OF ne, of _ out B S rep] t l by simp
    then have "cell (fst (transform B S (out', rep') c) ! i) (cname c)
        = cell (fst (transform B S (out, rep') c) ! i) (cname c)"
      using transform_cong [of out' out c i B S rep' rep'] l Cons.prems(3) by simp
    ultimately show ?thesis using t by simp
  qed
qed

lemma rows_cleanData:
  "rows (cleanData B rs profile)
     = fst (foldl (transform B (summaries B rs profile)) (rs, []) (columns profile))"
  by (simp add: cleanData_def Let_def)

lemma report_cleanData:
  "report (cleanData B rs profile)
     = snd (foldl (transform B (summaries B rs profile)) (rs, []) (columns profile))"
  by (simp add: cleanData_def Let_def)

lemma cleanData_own:
  assumes "distinct (map cname (columns profile))" "c \<in> set (columns profile)" "i < length rs"
  shows "cell (rows (cleanData B rs profile) ! i) (cname c)
       = cell (fst (transform B (summaries B rs profile) (rs, []) c) ! i) (cname c)"
  using foldl_transform_own [OF assms(1,2), of i rs B "summaries B rs profile" "[]" "[]"] assms(3)
  by (simp add: rows_cleanData)

lemma length_cleanData: "length (rows (cleanData B rs profile)) = length rs"
  by (simp add: rows_cleanData length_foldl_transform)

subsection \<open>The fill values of the first loop\<close>

lemma summarize_frame:
  "k \<noteq> cname col \<Longrightarrow>
   fst (summarize B rs S col) k = fst S k \<and> snd (summarize B rs S col) k = snd S k"
  by (cases S) (simp add: summarize_def Let_def split: option.splits)

lemma summarize_own:
  "fst (summarize B rs S col) (cname col)
     = (if ctype col = ''numeric'' \<and> column_nums B (cname col) rs \<noteq> []
        then Some (q2 (quantiles (column_nums B (cname col) rs))) else fst S (cname col))"
  "snd (summarize B rs S col) (cname col)
     = (if ctype col = ''numeric'' then snd S (cname col)
        else if ctype col = ''boolean'' then
          (case mode (bool_vals B (cname col) rs) of None \<Rightarrow> snd S (cname col) | Some m \<Rightarrow> Some (JBool m))
        else if ctype col = ''categorical'' \<or> ctype col = ''text'' then
          (case mode (text_vals B (cname col) rs) of None \<Rightarrow> snd S (cname col) | Some m \<Rightarrow> Some (JStr m))
        else snd S (cname col))"
  by (cases S; simp add: summarize_def Let_def split: option.splits)+

lemma foldl_summarize_frame:
  "k \<notin> cname ` set cols \<Longrightarrow>
   fst (foldl (summarize B rs) S cols) k = fst S k \<and> snd (foldl (summarize B rs) S cols) k = snd S k"
proof (induction cols arbitrary: S)
  case Nil
  then show ?case by simp
next
  case (Cons d ds)
  have "k \<noteq> cname d" "k \<notin> cname ` set ds" using Cons.prems by auto
  then show ?case
    using Cons.IH [of "summarize B rs S d"] summarize_frame [of k d B rs S] by simp
qed

lemma foldl_summarize_own:
  "distinct (map cname cols) \<Longrightarrow> c \<in> set cols \<Longrightarrow>
   fst (foldl (summarize B rs) S cols) (cname c) = fst (summarize B rs S c) (cname c) \<and>
   snd (foldl (summarize B rs) S cols) (cname c) = snd (summarize B rs S c) (cname c)"
proof (induction cols arbitrary: S)
  case Nil
  then show ?case by simp
next
  case (Cons d ds)
  show ?case
  proof (cases "d = c")
    case True
    have "cname c \<notin> cname ` set ds" using Cons.prems(1) True by auto
    then show ?thesis
      using foldl_summarize_frame [of "cname c" ds B rs "summarize B rs S c"] True by simp
  next
    case False
    have cin: "c \<in> set ds" using False Cons.prems(2) by simp
    have "cname d \<notin> cname ` set ds" using Cons.prems(1) by simp
    then have ne: "cname c \<noteq> cname d" using cin by (metis imageI)
    have fr: "fst (summarize B rs S d) (cname c) = fst S (cname c)"
             "snd (summarize B rs S d) (cname c) = snd S (cname c)"
      using summarize_frame [OF ne, of B rs S] by simp_all
    have "fst (summarize B rs (summarize B rs S d) c) (cname c) = fst (summarize B rs S c) (cname c)"
         "snd (summarize B rs (summarize B rs S d) c) (cname c) = snd (summarize B rs S c) (cname c)"
      by (simp_all add: summarize_own fr cong: option.case_cong)
    then show ?thesis using Cons.IH [of "summarize B rs S d"] Cons.prems(1) cin by simp
  qed
qed

lemma summaries_own:
  assumes "distinct (map cname (columns profile))" "c \<in> set (columns profile)"
  shows "fst (summaries B rs profile) (cname c)
           = (if ctype c = ''numeric'' \<and> column_nums B (cname c) rs \<noteq> []
              then Some (q2 (quantiles (column_nums B (cname c) rs))) else None)"
    and "snd (summaries B rs profile) (cname c)
           = (if ctype c = ''boolean'' then map_option JBool (mode (bool_vals B (cname c) rs))
              else if ctype c = ''categorical'' \<or> ctype c = ''text''
              then map_option JStr (mode (text_vals B (cname c) rs))
              else None)"
  using foldl_summarize_own [OF assms, of B rs "(Map.empty, Map.empty)"]
  by (auto simp: summaries_def summarize_own split: option.splits)

lemma mode_in_set: "mode xs = Some v \<Longrightarrow> v \<in> set xs"
  unfolding mode_find find_Some_iff by auto

lemma text_vals_nonempty: "s \<in> set (text_vals B k rs) \<Longrightarrow> s \<noteq> []"
  by (simp add: text_vals_def)

lemma summarize_not_blank:
  assumes "\<forall>k v. snd S k = Some v \<longrightarrow> \<not> blank v"
  shows "\<forall>k v. snd (summarize B rs S col) k = Some v \<longrightarrow> \<not> blank v"
proof (intro allI impI)
  fix k v assume a: "snd (summarize B rs S col) k = Some v"
  show "\<not> blank v"
  proof (cases "k = cname col")
    case False
    then show ?thesis using a assms summarize_frame [of k col B rs S] by simp
  next
    case True
    then show ?thesis
      using a assms mode_in_set [of "text_vals B (cname col) rs"] text_vals_nonempty [of _ B "cname col" rs]
      by (auto simp: summarize_own blank_def nullish_def split: if_splits option.splits)
  qed
qed

lemma foldl_summarize_not_blank:
  "\<forall>k v. snd S k = Some v \<longrightarrow> \<not> blank v \<Longrightarrow>
   \<forall>k v. snd (foldl (summarize B rs) S cols) k = Some v \<longrightarrow> \<not> blank v"
proof (induction cols arbitrary: S)
  case Nil
  then show ?case by simp
next
  case (Cons d ds)
  show ?case using Cons.IH [OF summarize_not_blank [OF Cons.prems]] by simp
qed

lemma summaries_not_blank: "snd (summaries B rs profile) k = Some v \<Longrightarrow> \<not> blank v"
  using foldl_summarize_not_blank [of "(Map.empty, Map.empty)" B rs "columns profile"]
  by (simp add: summaries_def)

subsection \<open>The cleaned cell of a profiled column\<close>

lemma length_winsorize: "length (winsorize arr) = length arr"
  by (simp add: winsorize_def Let_def)

lemma length_converted: "length (converted B m k out) = length out"
  by (simp add: converted_def)

lemma transform_raw_cell:
  assumes "i < length rs"
  shows "cell (fst (transform B S (rs, rep) c) ! i) (cname c)
     = (if ctype c = ''numeric'' then
          JNum (Fin (winsorize (converted B (case fst S (cname c) of None \<Rightarrow> 0 | Some m \<Rightarrow> m)
                                 (cname c) rs) ! i))
        else if ctype c = ''datetime'' then
          (case normalizeDate B (cell (rs ! i) (cname c)) of
             None \<Rightarrow> cell (rs ! i) (cname c) | Some s \<Rightarrow> JStr s)
        else if ctype c = ''boolean'' then
          (case normalizeBoolean B (cell (rs ! i) (cname c)) of
             None \<Rightarrow> (case snd S (cname c) of None \<Rightarrow> JBool False | Some b \<Rightarrow> b)
           | Some v \<Rightarrow> JBool v)
        else if ctype c = ''categorical'' \<or> ctype c = ''text'' then
          (if blank (cell (rs ! i) (cname c))
           then (case snd S (cname c) of None \<Rightarrow> JStr ''Unknown'' | Some m \<Rightarrow> m)
           else JStr (trim (String_of B (cell (rs ! i) (cname c)))))
        else cell (rs ! i) (cname c))"
proof -
  obtain meds mods where S: "S = (meds, mods)" by (cases S)
  show ?thesis using assms unfolding S
    by (simp add: transform_def Let_def cell_upd_same cong: option.case_cong)
qed

text \<open>
  Claim C4: in a datetime column of a profile with unique column names, a cell on which
  \<^const>\<open>normalizeDate\<close> returns missing keeps its raw value, and a cell on which it
  succeeds becomes the canonical string it returns.
\<close>

theorem datetime_cell_kept_or_canonical:
  assumes "distinct (map cname (columns profile))" and "c \<in> set (columns profile)"
    and "ctype c = ''datetime''" and "i < length rs"
  shows "(normalizeDate B (cell (rs ! i) (cname c)) = None \<longrightarrow>
            cell (rows (cleanData B rs profile) ! i) (cname c) = cell (rs ! i) (cname c)) \<and>
         (\<forall>s. normalizeDate B (cell (rs ! i) (cname c)) = Some s \<longrightarrow>
            cell (rows (cleanData B rs profile) ! i) (cname c) = JStr s)"
  using cleanData_own [OF assms(1,2,4), of B] assms(3,4)
  by (simp add: transform_raw_cell)

lemma cell_one_column: "i < length vs \<Longrightarrow> cell (one_column k vs ! i) k = vs ! i"
  by (simp add: one_column_def cell_def)

lemma epoch_date: "normalizeDate B (JNum (Fin 0)) = Some ''1970-01-01''"
  by code_simp


lemma invalid_date: "normalizeDate B (JDate None) = None"
  by (simp add: normalizeDate_def blank_def nullish_def toDate_def)

lemma profile_of_simps:
  "columns (profile_of k t) = [\<lparr>cname = k, ctype = t\<rparr>]"
  "distinct (map cname (columns (profile_of k t)))"
  "\<lparr>cname = k, ctype = t\<rparr> \<in> set (columns (profile_of k t))"
  by (simp_all add: profile_of_def)

lemma length_one_column: "length (one_column k vs) = length vs"
  by (simp add: one_column_def)

theorem datetime_cell_kept_or_canonical_witness:
  "distinct (map cname (columns (profile_of ''d'' ''datetime''))) \<and>
   \<lparr>cname = ''d'', ctype = ''datetime''\<rparr> \<in> set (columns (profile_of ''d'' ''datetime'')) \<and>
   (1 :: nat) < length (one_column ''d'' [JNum (Fin 0), JDate None]) \<and>
   normalizeDate no_builtins (JDate None) = None \<and>
   cell (rows (cleanData no_builtins (one_column ''d'' [JNum (Fin 0), JDate None])
                 (profile_of ''d'' ''datetime'')) ! 1) ''d'' = JDate None \<and>
   normalizeDate no_builtins (JNum (Fin 0)) = Some ''1970-01-01'' \<and>
   cell (rows (cleanData no_builtins (one_column ''d'' [JNum (Fin 0), JDate None])
                 (profile_of ''d'' ''datetime'')) ! 0) ''d'' = JStr ''1970-01-01''"
proof -
  let ?c = "\<lparr>cname = ''d'', ctype = ''datetime''\<rparr>"
  let ?t = "one_column ''d'' [JNum (Fin 0), JDate None]"
  have d: "distinct (map cname (columns (profile_of ''d'' ''datetime'')))"
    and m: "?c \<in> set (columns (profile_of ''d'' ''datetime''))"
    by (simp_all add: profile_of_simps)
  have l: "(1 :: nat) < length ?t" "(0 :: nat) < length ?t" by (simp_all add: length_one_column)
  have r: "cell (?t ! 1) ''d'' = JDate None" "cell (?t ! 0) ''d'' = JNum (Fin 0)"
    by (simp_all add: cell_one_column)
  show ?thesis
    using datetime_cell_kept_or_canonical [OF d m _ l(1), of no_builtins]
      datetime_cell_kept_or_canonical [OF d m _ l(2), of no_builtins]
      d m l r invalid_date [of no_builtins] epoch_date [of no_builtins]
    by simp
qed


lemma text_fill_not_empty: "text_fill B k rs \<noteq> JStr []"
  using mode_in_set [of "text_vals B k rs"] text_vals_nonempty [of _ B k rs]
  by (auto simp: text_fill_def split: option.splits)

lemma blank_text_cell:
  assumes "distinct (map cname (columns profile))" and "c \<in> set (columns profile)"
    and "ctype c = ''categorical'' \<or> ctype c = ''text''" and "j < length rs"
    and "blank (cell (rs ! j) (cname c))"
  shows "cell (rows (cleanData B rs profile) ! j) (cname c) = text_fill B (cname c) rs"
proof -
  have ty: "ctype c \<noteq> ''numeric''" "ctype c \<noteq> ''datetime''" "ctype c \<noteq> ''boolean''"
    using assms(3) by auto
  have "snd (summaries B rs profile) (cname c) = map_option JStr (mode (text_vals B (cname c) rs))"
    using summaries_own(2) [OF assms(1,2), of B rs] assms(3) ty by auto
  then show ?thesis
    using cleanData_own [OF assms(1,2,4), of B] assms(3,4,5) ty
    by (auto simp: transform_raw_cell text_fill_def split: option.splits)
qed

lemma present_text_cell:
  assumes "distinct (map cname (columns profile))" and "c \<in> set (columns profile)"
    and "ctype c = ''categorical'' \<or> ctype c = ''text''" and "i < length rs"
    and "\<not> blank (cell (rs ! i) (cname c))"
  shows "cell (rows (cleanData B rs profile) ! i) (cname c)
           = JStr (trim (String_of B (cell (rs ! i) (cname c))))"
proof -
  have ty: "ctype c \<noteq> ''numeric''" "ctype c \<noteq> ''datetime''" "ctype c \<noteq> ''boolean''"
    using assms(3) by auto
  show ?thesis
    using cleanData_own [OF assms(1,2,4), of B] assms(3,4,5) ty
    by (simp add: transform_raw_cell)
qed




subsection \<open>The report\<close>

lemma entry_forI: "entry_for c (cname c @ CHR '':'' # CHR '' '' # rest)"
  by (simp add: entry_for_def)

lemma report_transform:
  "\<exists>e. snd (transform B S (out, rep) c) = rep @ (if supported c then [e] else []) \<and> entry_for c e"
proof -
  obtain meds mods where S: "S = (meds, mods)" by (cases S)
  show ?thesis
    unfolding S
    by (auto simp: transform_def Let_def supported_def intro: entry_forI)
qed

lemma report_foldl_transform:
  "\<exists>R. snd (foldl (transform B S) (out, rep) cols) = rep @ R \<and>
       list_all2 entry_for (filter supported cols) R"
proof (induction cols arbitrary: out rep)
  case Nil
  then show ?case by simp
next
  case (Cons d ds)
  obtain out' rep' where t: "transform B S (out, rep) d = (out', rep')"
    by (cases "transform B S (out, rep) d")
  obtain e where e: "rep' = rep @ (if supported d then [e] else [])" "entry_for d e"
    using report_transform [of B S out rep d] t by auto
  obtain R where R: "snd (foldl (transform B S) (out', rep') ds) = rep' @ R"
      "list_all2 entry_for (filter supported ds) R"
    using Cons.IH [of out' rep'] by blast
  show ?case
  proof (cases "supported d")
    case True
    then have "snd (foldl (transform B S) (out, rep) (d # ds)) = rep @ (e # R)"
      using t e R by simp
    moreover have "list_all2 entry_for (filter supported (d # ds)) (e # R)"
      using True e(2) R(2) by simp
    ultimately show ?thesis by blast
  next
    case False
    then have "snd (foldl (transform B S) (out, rep) (d # ds)) = rep @ R"
      using t e R by simp
    moreover have "list_all2 entry_for (filter supported (d # ds)) R"
      using False R(2) by simp
    ultimately show ?thesis by blast
  qed
qed

text \<open>
  Claim C7, amended: the report holds exactly one line for each profile column whose type
  is numeric, datetime, boolean, categorical or text, in profile order, and each line
  begins with its column's name. A column of any other type has no branch in either loop
  and adds no line.
\<close>

theorem report_one_entry_per_supported_column:
  "list_all2 entry_for (filter supported (columns profile)) (report (cleanData B rs profile))"
  using report_foldl_transform [of B "summaries B rs profile" rs "[]" "columns profile"]
  by (auto simp: report_cleanData)

text \<open>
  Claim C7 as stated fails: a profile that lists one column, of a type that the loops
  have no branch for, gives an empty report.
\<close>

theorem report_skips_unsupported_column:
  "length (columns (profile_of ''c'' ''geo'')) = 1 \<and>
   report (cleanData no_builtins [] (profile_of ''c'' ''geo'')) = []"
  by (simp add: report_cleanData profile_of_def transform_def summaries_def)

lemma unlisted_column_unchanged:
  "k \<notin> cname ` set (columns profile) \<Longrightarrow> i < length rs \<Longrightarrow>
   (rows (cleanData B rs profile) ! i) k = (rs ! i) k"
  by (simp add: rows_cleanData foldl_transform_frame)

lemma length_pad:
  "length (pad2 k) = 2" "length (pad3 k) = 3" "length (pad4 k) = 4" "length (pad6 k) = 6"
  by (simp_all add: pad2_def pad3_def pad4_def pad6_def)

lemma length_year_text: "4 \<le> length (year_text y)"
  by (simp add: year_text_def length_pad)

lemma length_toISOString: "20 \<le> length (toISOString t)"
  using length_year_text [of "fst (civil (t div 86400000))"]
  by (cases "civil (t div 86400000)") (simp add: toISOString_def length_pad)

lemma normalizeDate_not_empty: "normalizeDate B v = Some s \<Longrightarrow> s \<noteq> []"
  using length_toISOString [of "the (toDate B v)"]
  by (auto simp: normalizeDate_def Let_def slice_def split: if_splits option.splits)

subsection \<open>No blank cell after cleaning\<close>

text \<open>
  Claim C3, amended: in a profile with unique column names, a cleaned cell of a column of
  one of the five handled types is not \<^verbatim>\<open>null\<close>, \<^verbatim>\<open>undefined\<close> or the empty string,
  unless it is a datetime cell whose raw value did not parse, or a categorical or text
  cell whose raw value is present and trims to the empty string.
\<close>

theorem cleaned_cell_not_blank:
  assumes "distinct (map cname (columns profile))" and "c \<in> set (columns profile)"
    and "supported c" and "i < length rs"
    and "\<not> (ctype c = ''datetime'' \<and> normalizeDate B (cell (rs ! i) (cname c)) = None)"
    and "\<not> ((ctype c = ''categorical'' \<or> ctype c = ''text'') \<and>
            \<not> blank (cell (rs ! i) (cname c)) \<and>
            trim (String_of B (cell (rs ! i) (cname c))) = [])"
  shows "\<not> blank (cell (rows (cleanData B rs profile) ! i) (cname c))"
proof -
  let ?raw = "cell (rs ! i) (cname c)"
  let ?S = "summaries B rs profile"
  have own: "cell (rows (cleanData B rs profile) ! i) (cname c)
               = cell (fst (transform B ?S (rs, []) c) ! i) (cname c)"
    by (rule cleanData_own [OF assms(1,2,4)])
  consider (numeric) "ctype c = ''numeric''" | (datetime) "ctype c = ''datetime''"
    | (boolean) "ctype c = ''boolean''" | (textual) "ctype c = ''categorical'' \<or> ctype c = ''text''"
    using assms(3) by (auto simp: supported_def)
  then show ?thesis
  proof cases
    case numeric
    then show ?thesis using own assms(4)
      by (simp add: transform_raw_cell blank_def nullish_def)
  next
    case datetime
    then obtain s where s: "normalizeDate B ?raw = Some s" using assms(5) by auto
    then have "s \<noteq> []" by (rule normalizeDate_not_empty)
    then show ?thesis using own assms(4) datetime s
      by (simp add: transform_raw_cell blank_def nullish_def)
  next
    case boolean
    have "\<And>v. snd ?S (cname c) = Some v \<Longrightarrow> \<not> blank v" by (rule summaries_not_blank)
    then show ?thesis using own assms(4) boolean
      by (auto simp: transform_raw_cell blank_def nullish_def split: option.splits)
  next
    case textual
    then have ty: "ctype c \<noteq> ''numeric''" "ctype c \<noteq> ''datetime''" "ctype c \<noteq> ''boolean''"
      by auto
    show ?thesis
    proof (cases "blank ?raw")
      case True
      then show ?thesis
        using blank_text_cell [OF assms(1,2) textual assms(4), of B] text_fill_not_empty [of B "cname c" rs]
          mode_in_set [of "text_vals B (cname c) rs"]
        by (auto simp: text_fill_def blank_def nullish_def split: option.splits)
    next
      case False
      then have "trim (String_of B ?raw) \<noteq> []" using assms(6) textual by blast
      then show ?thesis
        using present_text_cell [OF assms(1,2) textual assms(4) False, of B]
        by (simp add: blank_def nullish_def)
    qed
  qed
qed

text \<open>
  Claim C3 as stated fails: a text cell that holds one space is cleaned to the empty
  string, and a \<^verbatim>\<open>null\<close> cell of a column whose type has no branch stays \<^verbatim>\<open>null\<close>.
\<close>

theorem whitespace_text_cell_is_blank_after_cleaning:
  "\<lparr>cname = ''t'', ctype = ''text''\<rparr> \<in> set (columns (profile_of ''t'' ''text'')) \<and>
   cell (rows (cleanData no_builtins (one_column ''t'' [JStr '' ''])
                 (profile_of ''t'' ''text'')) ! 0) ''t'' = JStr [] \<and>
   cell (rows (cleanData no_builtins (one_column ''c'' [JNull])
                 (profile_of ''c'' ''geo'')) ! 0) ''c'' = JNull"
proof -
  let ?c = "\<lparr>cname = ''t'', ctype = ''text''\<rparr>"
  let ?t = "one_column ''t'' [JStr '' '']"
  have d: "distinct (map cname (columns (profile_of ''t'' ''text'')))"
    and m: "?c \<in> set (columns (profile_of ''t'' ''text''))"
    by (simp_all add: profile_of_simps)
  have ty: "ctype ?c = ''categorical'' \<or> ctype ?c = ''text''" by simp
  have l: "(0 :: nat) < length ?t" by (simp add: length_one_column)
  have r: "cell (?t ! 0) (cname ?c) = JStr '' ''" by (simp add: cell_one_column)
  then have nb: "\<not> blank (cell (?t ! 0) (cname ?c))" by (simp add: blank_def nullish_def)
  have "trim '' '' = []" by (simp add: trim_def is_space_def)
  then have "cell (rows (cleanData no_builtins ?t (profile_of ''t'' ''text'')) ! 0) ''t'' = JStr []"
    using present_text_cell [OF d m ty l nb, of no_builtins] r
    by (simp add: String_of_def)
  moreover have "cell (rows (cleanData no_builtins (one_column ''c'' [JNull])
                 (profile_of ''c'' ''geo'')) ! 0) ''c'' = JNull"
    by (simp add: rows_cleanData profile_of_def transform_def cell_one_column)
  ultimately show ?thesis using m by (intro conjI)
qed

theorem cleaned_cell_not_blank_witness:
  "distinct (map cname (columns (profile_of ''t'' ''text''))) \<and>
   \<lparr>cname = ''t'', ctype = ''text''\<rparr> \<in> set (columns (profile_of ''t'' ''text'')) \<and>
   supported \<lparr>cname = ''t'', ctype = ''text''\<rparr> \<and>
   (1 :: nat) < length (one_column ''t'' [JStr '' '', JNull, JStr ''a'']) \<and>
   blank (cell (one_column ''t'' [JStr '' '', JNull, JStr ''a''] ! 1) ''t'') \<and>
   \<not> blank (cell (rows (cleanData no_builtins (one_column ''t'' [JStr '' '', JNull, JStr ''a''])
                 (profile_of ''t'' ''text'')) ! 1) ''t'')"
proof -
  let ?c = "\<lparr>cname = ''t'', ctype = ''text''\<rparr>"
  let ?t = "one_column ''t'' [JStr '' '', JNull, JStr ''a'']"
  have d: "distinct (map cname (columns (profile_of ''t'' ''text'')))"
    and m: "?c \<in> set (columns (profile_of ''t'' ''text''))"
    by (simp_all add: profile_of_simps)
  have su: "supported ?c" by (simp add: supported_def)
  have l: "(1 :: nat) < length ?t" by (simp add: length_one_column)
  have r: "cell (?t ! 1) (cname ?c) = JNull" by (simp add: cell_one_column)
  then have b: "blank (cell (?t ! 1) (cname ?c))" by (simp add: blank_def nullish_def)
  have h1: "\<not> (ctype ?c = ''datetime'' \<and> normalizeDate no_builtins (cell (?t ! 1) (cname ?c)) = None)"
    by simp
  have h2: "\<not> ((ctype ?c = ''categorical'' \<or> ctype ?c = ''text'') \<and>
            \<not> blank (cell (?t ! 1) (cname ?c)) \<and>
            trim (String_of no_builtins (cell (?t ! 1) (cname ?c))) = [])"
    using b by simp
  show ?thesis
    using cleaned_cell_not_blank [OF d m su l h1 h2] d m su l b by simp
qed

subsection \<open>Date-only strings\<close>

lemma digit_char_zero: "digit_char d = CHR ''0'' \<longleftrightarrow> d mod 10 = 0"
proof -
  have "digit_char d = CHR ''0'' \<longleftrightarrow> (of_char (digit_char d) :: int) = of_char (CHR ''0'')"
    by (simp only: of_char_eq_iff)
  also have "\<dots> \<longleftrightarrow> d mod 10 = 0" by (simp add: digit_char_def)
  finally show ?thesis .
qed

lemma pad2_zero: "0 \<le> k \<Longrightarrow> k < 100 \<Longrightarrow> pad2 k = ''00'' \<longleftrightarrow> k = 0"
  by (auto simp: pad2_def digit_char_zero)

lemma hms_bounds:
  "0 \<le> hour_of t" "hour_of t < 100" "0 \<le> minute_of t" "minute_of t < 100"
  "0 \<le> second_of t" "second_of t < 100"
proof -
  have b: "0 \<le> t mod 86400000" "t mod 86400000 < 86400000" by simp_all
  then show "0 \<le> hour_of t" "hour_of t < 100" by (simp_all add: hour_of_def)
  show "0 \<le> minute_of t" "minute_of t < 100" by (simp_all add: minute_of_def)
  show "0 \<le> second_of t" "second_of t < 100" by (simp_all add: second_of_def)
qed

lemma slice_time:
  assumes "length Y = 4" "length M = 2" "length D = 2" "length H = 2" "length N = 2" "length S = 2"
  shows "slice 11 19 (Y @ ''-'' @ M @ ''-'' @ D @ ''T'' @ H @ '':'' @ N @ '':'' @ S @ R)
           = H @ '':'' @ N @ '':'' @ S"
    and "slice 0 10 (Y @ ''-'' @ M @ ''-'' @ D @ ''T'' @ H @ '':'' @ N @ '':'' @ S @ R)
           = Y @ ''-'' @ M @ ''-'' @ D"
  using assms by (simp_all add: slice_def)

lemma hms_text:
  "pad2 (hour_of t) @ '':'' @ pad2 (minute_of t) @ '':'' @ pad2 (second_of t) = ''00:00:00''
     \<longleftrightarrow> hour_of t = 0 \<and> minute_of t = 0 \<and> second_of t = 0"
  using pad2_zero [OF hms_bounds(1,2), of t] pad2_zero [OF hms_bounds(3,4), of t]
    pad2_zero [OF hms_bounds(5,6), of t]
  by (auto simp: pad2_def)


lemma normalizeDate_four_digit_year:
  assumes "\<not> blank v" and "toDate B v = Some t" and "0 \<le> year_of t" and "year_of t \<le> 9999"
  shows "normalizeDate B v
           = Some (if hour_of t = 0 \<and> minute_of t = 0 \<and> second_of t = 0
                   then date_only t else toISOString t)"
proof -
  obtain y m d where c: "civil (t div 86400000) = (y, m, d)"
    by (cases "civil (t div 86400000)")
  have y: "length (year_text y) = 4"
    using assms(3,4) c by (simp add: year_of_def year_text_def length_pad)
  let ?iso = "year_text y @ ''-'' @ pad2 m @ ''-'' @ pad2 d @ ''T''
        @ pad2 (hour_of t) @ '':'' @ pad2 (minute_of t) @ '':''
        @ pad2 (second_of t) @ ''.'' @ pad3 (milli_of t) @ ''Z''"
  have iso: "toISOString t = ?iso" by (simp add: toISOString_def c)
  have s1: "slice 11 19 ?iso
      = pad2 (hour_of t) @ '':'' @ pad2 (minute_of t) @ '':'' @ pad2 (second_of t)"
    by (rule slice_time(1)) (simp_all add: y length_pad)
  have s2: "slice 0 10 ?iso = date_only t"
    unfolding date_only_def c prod.case
    by (rule slice_time(2)) (simp_all add: y length_pad)
  have "normalizeDate B v
      = Some (if slice 11 19 ?iso = ''00:00:00'' then slice 0 10 ?iso else ?iso)"
    using assms(1,2) by (simp add: normalizeDate_def Let_def iso)
  then show ?thesis
    unfolding s1 s2 hms_text iso by simp
qed

lemma length_date_only: "0 \<le> year_of t \<Longrightarrow> year_of t \<le> 9999 \<Longrightarrow> length (date_only t) = 10"
  by (cases "civil (t div 86400000)")
     (simp add: date_only_def year_of_def year_text_def length_pad)

text \<open>
  Claim C8, amended: for a value that parses to a time whose UTC year is from 0 to 9999,
  \<^const>\<open>normalizeDate\<close> returns the date-only string exactly when the UTC hours, minutes
  and seconds are all zero, whatever the milliseconds, and the full timestamp otherwise.
\<close>

theorem date_only_iff_zero_hms:
  assumes "\<not> blank v" and "toDate B v = Some t" and "0 \<le> year_of t" and "year_of t \<le> 9999"
  shows "(normalizeDate B v = Some (date_only t)
            \<longleftrightarrow> hour_of t = 0 \<and> minute_of t = 0 \<and> second_of t = 0) \<and>
         (\<not> (hour_of t = 0 \<and> minute_of t = 0 \<and> second_of t = 0)
            \<longrightarrow> normalizeDate B v = Some (toISOString t))"
proof -
  have "length (date_only t) = 10" using assms(3,4) by (rule length_date_only)
  moreover have "20 \<le> length (toISOString t)" by (rule length_toISOString)
  ultimately have ne: "toISOString t \<noteq> date_only t" by auto
  show ?thesis
    using normalizeDate_four_digit_year [OF assms] ne by auto
qed


theorem date_only_iff_zero_hms_witness:
  "\<not> blank (JDate (Some 1672531200000)) \<and>
   toDate no_builtins (JDate (Some 1672531200000)) = Some 1672531200000 \<and>
   0 \<le> year_of 1672531200000 \<and> year_of 1672531200000 \<le> 9999 \<and>
   hour_of 1672531200000 = 0 \<and> minute_of 1672531200000 = 0 \<and> second_of 1672531200000 = 0 \<and>
   date_only 1672531200000 = ''2023-01-01'' \<and>
   normalizeDate no_builtins (JDate (Some 1672531200000)) = Some ''2023-01-01''"
proof -
  have nb: "\<not> blank (JDate (Some 1672531200000))" by (simp add: blank_def nullish_def)
  have td: "toDate no_builtins (JDate (Some 1672531200000)) = Some 1672531200000"
    by (simp add: toDate_def)
  have y: "year_of 1672531200000 = 2023" by code_simp
  have y1: "0 \<le> year_of 1672531200000" and y2: "year_of 1672531200000 \<le> 9999"
    by (simp_all add: y)
  have hms: "hour_of 1672531200000 = 0" "minute_of 1672531200000 = 0" "second_of 1672531200000 = 0"
    by (simp_all add: hour_of_def minute_of_def second_of_def)
  have dd: "date_only 1672531200000 = ''2023-01-01''" by code_simp
  from date_only_iff_zero_hms [OF nb td y1 y2] hms dd
  have "normalizeDate no_builtins (JDate (Some 1672531200000)) = Some ''2023-01-01''" by simp
  then show ?thesis using nb td y1 y2 hms dd by (intro conjI)
qed

text \<open>
  Claim C8 as stated fails in both directions: half a second after midnight the result
  is date-only although the time of day is not midnight, and at midnight of the first day
  of the year 10000 the result is the full timestamp, because the year then takes seven
  characters and characters 11 to 18 are not the time.
\<close>

theorem date_only_half_second_past_midnight:
  "toDate no_builtins (JDate (Some 500)) = Some 500 \<and>
   time_of_day 500 = 500 \<and>
   normalizeDate no_builtins (JDate (Some 500)) = Some ''1970-01-01'' \<and>
   toDate no_builtins (JDate (Some 253402300800000)) = Some 253402300800000 \<and>
   time_of_day 253402300800000 = 0 \<and>
   normalizeDate no_builtins (JDate (Some 253402300800000)) = Some ''+010000-01-01T00:00:00.000Z''"
proof -
  have "toDate no_builtins (JDate (Some 500)) = Some 500"
    and "toDate no_builtins (JDate (Some 253402300800000)) = Some 253402300800000"
    by (simp_all add: toDate_def)
  moreover have "time_of_day 500 = 500" and "time_of_day 253402300800000 = 0"
    by (simp_all add: time_of_day_def)
  moreover have "normalizeDate no_builtins (JDate (Some 500)) = Some ''1970-01-01''"
    by code_simp
  moreover have "normalizeDate no_builtins (JDate (Some 253402300800000))
      = Some ''+010000-01-01T00:00:00.000Z''"
    by code_simp
  ultimately show ?thesis by (intro conjI)
qed

subsection \<open>Numeric columns and a second run\<close>

lemma numeric_cell:
  assumes "distinct (map cname (columns profile))" and "c \<in> set (columns profile)"
    and "ctype c = ''numeric''" and "i < length rs"
  shows "cell (rows (cleanData B rs profile) ! i) (cname c)
           = JNum (Fin (winsorize (converted B (numeric_fill B (cname c) rs) (cname c) rs) ! i))"
proof -
  have "(case fst (summaries B rs profile) (cname c) of None \<Rightarrow> 0 | Some m \<Rightarrow> m)
          = numeric_fill B (cname c) rs"
    using summaries_own(1) [OF assms(1,2), of B rs] assms(3) by (simp add: numeric_fill_def)
  then show ?thesis
    using cleanData_own [OF assms(1,2,4), of B] assms(3,4) by (simp add: transform_raw_cell)
qed

lemma numeric_column:
  assumes "distinct (map cname (columns profile))" and "c \<in> set (columns profile)"
    and "ctype c = ''numeric''"
  shows "map (\<lambda>rr. cell rr (cname c)) (rows (cleanData B rs profile))
           = map (\<lambda>x. JNum (Fin x)) (winsorize (converted B (numeric_fill B (cname c) rs) (cname c) rs))"
  by (rule nth_equalityI)
     (simp_all add: length_cleanData length_winsorize length_converted numeric_cell [OF assms])

lemma toNumber_finite: "toNumber B (JNum (Fin x)) = Some x"
  by (simp add: toNumber_def)

lemma map_filter_via_map: "List.map_filter f xs = List.map_filter id (map f xs)"
  by (induction xs) (simp_all split: option.splits)

lemma map_filter_Some: "List.map_filter id (map Some xs) = xs"
  by (induction xs) simp_all

lemma numbers_column:
  assumes "map (\<lambda>rr. cell rr k) rs = map (\<lambda>x. JNum (Fin x)) xs"
  shows "converted B m k rs = xs" and "column_nums B k rs = xs"
proof -
  have "map (\<lambda>rr. toNumber B (cell rr k)) rs = map (toNumber B) (map (\<lambda>rr. cell rr k) rs)"
    by simp
  also have "\<dots> = map Some xs" unfolding assms by (simp add: toNumber_finite)
  finally have n: "map (\<lambda>rr. toNumber B (cell rr k)) rs = map Some xs" .
  show "converted B m k rs = xs" unfolding converted_def n by (simp add: map_idI)
  have "column_nums B k rs = List.map_filter id (map (\<lambda>rr. toNumber B (cell rr k)) rs)"
    unfolding column_nums_def by (rule map_filter_via_map)
  then show "column_nums B k rs = xs" unfolding n by (simp add: map_filter_Some)
qed

lemma winsorize_fences:
  "winsorize arr =
     (if length arr < 5 then arr
      else map (\<lambda>v. if v < fst (fences arr) then fst (fences arr)
                     else if v > snd (fences arr) then snd (fences arr) else v) arr)"
  by (simp add: winsorize_def fences_def Let_def)

lemma winsorize_keeps:
  assumes "i < length arr"
    and "length arr < 5 \<or> (fst (fences arr) \<le> arr ! i \<and> arr ! i \<le> snd (fences arr))"
  shows "winsorize arr ! i = arr ! i"
  using assms by (auto simp: winsorize_fences)


lemma second_run_numeric:
  assumes "distinct (map cname (columns profile))" and "c \<in> set (columns profile)"
    and "ctype c = ''numeric''" and "i < length rs"
  shows "cell (rows (cleanData B (rows (cleanData B rs profile)) profile) ! i) (cname c)
           = JNum (Fin (winsorize (winsorize (converted B (numeric_fill B (cname c) rs) (cname c) rs)) ! i))"
proof -
  let ?xs = "winsorize (converted B (numeric_fill B (cname c) rs) (cname c) rs)"
  let ?rs1 = "rows (cleanData B rs profile)"
  have col: "map (\<lambda>rr. cell rr (cname c)) ?rs1 = map (\<lambda>x. JNum (Fin x)) ?xs"
    by (rule numeric_column [OF assms(1-3)])
  have i: "i < length ?rs1" using assms(4) by (simp add: length_cleanData)
  show ?thesis
    using numeric_cell [OF assms(1-3) i, of B] by (simp add: numbers_column(1) [OF col])
qed

lemma normalizeDate_canonical:
  "\<not> blank v \<Longrightarrow> toDate B v = Some t \<Longrightarrow> normalizeDate B v = Some (canonical_date t)"
  by (simp add: normalizeDate_def canonical_date_def Let_def)

lemma canonical_date_four_digit_year:
  assumes "0 \<le> year_of t" and "year_of t \<le> 9999"
  shows "canonical_date t
           = (if hour_of t = 0 \<and> minute_of t = 0 \<and> second_of t = 0
              then date_only t else toISOString t)"
proof -
  have nb: "\<not> blank (JDate (Some t))" by (simp add: blank_def nullish_def)
  have td: "toDate B (JDate (Some t)) = Some t" for B by (simp add: toDate_def)
  show ?thesis
    using normalizeDate_four_digit_year [OF nb td assms, of no_builtins]
      normalizeDate_canonical [OF nb td, of no_builtins] by simp
qed

lemma slice_day_and_time:
  assumes "length Y = 7" "length M = 2"
  shows "slice 11 19 (Y @ ''-'' @ M @ ''-'' @ [d1, d2] @ ''T'' @ [h1, h2] @ '':'' @ [n1, n2] @ R)
           = [d1, d2] @ ''T'' @ [h1, h2] @ '':'' @ [n1, n2]"
  using assms by (simp add: slice_def)

lemma canonical_date_long_year:
  assumes "\<not> (0 \<le> year_of t \<and> year_of t \<le> 9999)"
  shows "canonical_date t = toISOString t"
proof -
  obtain y m d where c: "civil (t div 86400000) = (y, m, d)"
    by (cases "civil (t div 86400000)")
  have y: "length (year_text y) = 7"
    using assms c by (auto simp: year_of_def year_text_def length_pad)
  have "slice 11 19 (toISOString t)
          = pad2 d @ ''T'' @ pad2 (hour_of t) @ '':'' @ pad2 (minute_of t)"
    unfolding toISOString_def c prod.case pad2_def [of d] pad2_def [of "hour_of t"]
      pad2_def [of "minute_of t"]
    using slice_day_and_time [OF y length_pad(1) [of m]] by simp
  then have "slice 11 19 (toISOString t) \<noteq> ''00:00:00''" by (simp add: pad2_def)
  then show ?thesis by (simp add: canonical_date_def Let_def)
qed

lemma midnight_of_day:
  "(t - time_of_day t) div 86400000 = t div 86400000"
  "hour_of (t - time_of_day t) = 0" "minute_of (t - time_of_day t) = 0"
  "second_of (t - time_of_day t) = 0"
proof -
  have m: "t - time_of_day t = 86400000 * (t div 86400000)"
    by (simp add: time_of_day_def minus_mod_eq_mult_div)
  show "(t - time_of_day t) div 86400000 = t div 86400000" unfolding m by simp
  show "hour_of (t - time_of_day t) = 0" unfolding m by (simp add: hour_of_def)
  show "minute_of (t - time_of_day t) = 0" unfolding m by (simp add: minute_of_def)
  show "second_of (t - time_of_day t) = 0" unfolding m by (simp add: second_of_def)
qed

lemma canonical_date_midnight:
  assumes "0 \<le> year_of t" and "year_of t \<le> 9999"
  shows "canonical_date (t - time_of_day t) = date_only t"
proof -
  have y: "year_of (t - time_of_day t) = year_of t"
    by (simp add: year_of_def midnight_of_day(1))
  have d: "date_only (t - time_of_day t) = date_only t"
    by (simp add: date_only_def midnight_of_day(1))
  show ?thesis
    using canonical_date_four_digit_year [of "t - time_of_day t"] assms
    by (simp add: y d midnight_of_day)
qed

lemma canonical_date_not_empty: "canonical_date t \<noteq> []"
  using normalizeDate_canonical [of "JDate (Some t)" no_builtins t]
    normalizeDate_not_empty [of no_builtins "JDate (Some t)" "canonical_date t"]
  by (simp add: blank_def nullish_def toDate_def)

lemma canonical_date_stable:
  assumes "reads_back B t"
  shows "normalizeDate B (JStr (canonical_date t)) = Some (canonical_date t)"
proof -
  have nb: "\<not> blank (JStr (canonical_date t))"
    using canonical_date_not_empty [of t] by (simp add: blank_def nullish_def)
  have iso: "dateParse B (toISOString t) = Some t"
    and day: "dateParse B (date_only t) = Some (t - time_of_day t)"
    using assms by (simp_all add: reads_back_def)
  show ?thesis
  proof (cases "canonical_date t = toISOString t")
    case True
    then have "toDate B (JStr (canonical_date t)) = Some t" using iso by (simp add: toDate_def)
    then show ?thesis by (rule normalizeDate_canonical [OF nb])
  next
    case False
    then have yr: "0 \<le> year_of t" "year_of t \<le> 9999"
      using canonical_date_long_year [of t] by auto
    then have c: "canonical_date t = date_only t"
      using False canonical_date_four_digit_year [of t] by (simp split: if_splits)
    then have "toDate B (JStr (canonical_date t)) = Some (t - time_of_day t)"
      using day by (simp add: toDate_def)
    then have "normalizeDate B (JStr (canonical_date t)) = Some (canonical_date (t - time_of_day t))"
      by (rule normalizeDate_canonical [OF nb])
    then show ?thesis using canonical_date_midnight [OF yr] c by simp
  qed
qed

text \<open>
  Claim C5, amended: \<^const>\<open>cleanData\<close> run again on its cleaned rows, with the same profile
  (column names unique), leaves unchanged every numeric cell that lies within the
  clipping range computed from the cleaned column (and every numeric cell of a table of
  fewer than five rows), every date cell already in canonical form, and every non-empty
  text cell that is already trimmed. The second run computes its clipping range anew,
  from the cleaned column. A date cell is in canonical form when it holds
  \<^const>\<open>canonical_date\<close> of a time value; the first run writes that form into every cell
  that parses, and the second run keeps it when the engine reads its own date strings
  back (\<^const>\<open>reads_back\<close>).
\<close>

theorem second_run_keeps_settled_cells:
  assumes "distinct (map cname (columns profile))" and "c \<in> set (columns profile)"
    and "i < length rs"
  shows "(ctype c = ''numeric'' \<longrightarrow>
            (\<exists>x. cell (rows (cleanData B rs profile) ! i) (cname c) = JNum (Fin x) \<and>
               (length rs < 5 \<or>
                (fst (fences (column_nums B (cname c) (rows (cleanData B rs profile)))) \<le> x \<and>
                 x \<le> snd (fences (column_nums B (cname c) (rows (cleanData B rs profile)))))
                \<longrightarrow> cell (rows (cleanData B (rows (cleanData B rs profile)) profile) ! i) (cname c)
                      = JNum (Fin x)))) \<and>
         (ctype c = ''datetime'' \<longrightarrow>
            (\<forall>t. \<not> blank (cell (rs ! i) (cname c)) \<and> toDate B (cell (rs ! i) (cname c)) = Some t
                \<longrightarrow> cell (rows (cleanData B rs profile) ! i) (cname c) = JStr (canonical_date t)) \<and>
            (\<forall>t. cell (rows (cleanData B rs profile) ! i) (cname c) = JStr (canonical_date t) \<and>
                 reads_back B t
                \<longrightarrow> cell (rows (cleanData B (rows (cleanData B rs profile)) profile) ! i) (cname c)
                      = JStr (canonical_date t))) \<and>
         (ctype c = ''categorical'' \<or> ctype c = ''text'' \<longrightarrow>
            (\<forall>s. cell (rows (cleanData B rs profile) ! i) (cname c) = JStr s \<and> s \<noteq> [] \<and> trim s = s
                \<longrightarrow> cell (rows (cleanData B (rows (cleanData B rs profile)) profile) ! i) (cname c)
                      = JStr s))"
proof (intro conjI impI allI)
  let ?rs1 = "rows (cleanData B rs profile)"
  have i: "i < length ?rs1" using assms(3) by (simp add: length_cleanData)
  {
    assume num: "ctype c = ''numeric''"
    let ?xs = "winsorize (converted B (numeric_fill B (cname c) rs) (cname c) rs)"
    have col: "map (\<lambda>rr. cell rr (cname c)) ?rs1 = map (\<lambda>x. JNum (Fin x)) ?xs"
      by (rule numeric_column [OF assms(1,2) num])
    have cn: "column_nums B (cname c) ?rs1 = ?xs" by (rule numbers_column(2) [OF col])
    have len: "length ?xs = length rs" by (simp add: length_winsorize length_converted)
    have c1: "cell (?rs1 ! i) (cname c) = JNum (Fin (?xs ! i))"
      by (rule numeric_cell [OF assms(1,2) num assms(3)])
    have c2: "cell (rows (cleanData B ?rs1 profile) ! i) (cname c) = JNum (Fin (winsorize ?xs ! i))"
      by (rule second_run_numeric [OF assms(1,2) num assms(3)])
    have "length rs < 5 \<or> (fst (fences ?xs) \<le> ?xs ! i \<and> ?xs ! i \<le> snd (fences ?xs))
            \<longrightarrow> winsorize ?xs ! i = ?xs ! i"
      using winsorize_keeps [of i ?xs] assms(3) len by auto
    then show "\<exists>x. cell (?rs1 ! i) (cname c) = JNum (Fin x) \<and>
               (length rs < 5 \<or>
                (fst (fences (column_nums B (cname c) ?rs1)) \<le> x \<and>
                 x \<le> snd (fences (column_nums B (cname c) ?rs1)))
                \<longrightarrow> cell (rows (cleanData B ?rs1 profile) ! i) (cname c) = JNum (Fin x))"
      unfolding cn c1 c2 by blast
  }
  {
    fix t
    assume dt: "ctype c = ''datetime''"
      and r: "\<not> blank (cell (rs ! i) (cname c)) \<and> toDate B (cell (rs ! i) (cname c)) = Some t"
    then have "normalizeDate B (cell (rs ! i) (cname c)) = Some (canonical_date t)"
      by (simp add: normalizeDate_canonical)
    then show "cell (?rs1 ! i) (cname c) = JStr (canonical_date t)"
      using cleanData_own [OF assms(1,2,3), of B] dt assms(3) by (simp add: transform_raw_cell)
  }
  {
    fix t
    assume dt: "ctype c = ''datetime''"
      and s: "cell (?rs1 ! i) (cname c) = JStr (canonical_date t) \<and> reads_back B t"
    then have "normalizeDate B (cell (?rs1 ! i) (cname c)) = Some (canonical_date t)"
      by (simp add: canonical_date_stable)
    then show "cell (rows (cleanData B ?rs1 profile) ! i) (cname c) = JStr (canonical_date t)"
      using cleanData_own [OF assms(1,2) i, of B] dt i by (simp add: transform_raw_cell)
  }
  {
    fix s
    assume tx: "ctype c = ''categorical'' \<or> ctype c = ''text''"
      and s: "cell (?rs1 ! i) (cname c) = JStr s \<and> s \<noteq> [] \<and> trim s = s"
    then have nb: "\<not> blank (cell (?rs1 ! i) (cname c))" by (simp add: blank_def nullish_def)
    show "cell (rows (cleanData B ?rs1 profile) ! i) (cname c) = JStr s"
      using present_text_cell [OF assms(1,2) tx i nb, of B] s by (simp add: String_of_def)
  }
qed

subsection \<open>Examples on a table of numbers\<close>

lemma column_one_column: "map (\<lambda>rr. cell rr k) (one_column k vs) = vs"
  by (rule nth_equalityI) (simp_all add: length_one_column cell_one_column)

lemma numbers_table:
  "converted B m k (one_column k (numbers xs)) = xs"
  "column_nums B k (one_column k (numbers xs)) = xs"
  by (rule numbers_column, simp add: column_one_column numbers_def)+

lemma toNumber_null: "toNumber B JNull = None"
  by (simp add: toNumber_def blank_def nullish_def)

lemma numbers_and_null_table:
  "converted B m k (one_column k (numbers xs @ [JNull])) = xs @ [m]"
  "column_nums B k (one_column k (numbers xs @ [JNull])) = xs"
proof -
  have n: "map (\<lambda>rr. toNumber B (cell rr k)) (one_column k (numbers xs @ [JNull]))
             = map Some xs @ [None]"
    using column_one_column [of k "numbers xs @ [JNull]"]
    by (simp add: one_column_def numbers_def cell_def toNumber_finite toNumber_null comp_def)
  show "converted B m k (one_column k (numbers xs @ [JNull])) = xs @ [m]"
    unfolding converted_def n by (simp add: map_idI comp_def)
  have "column_nums B k (one_column k (numbers xs @ [JNull]))
          = List.map_filter id (map (\<lambda>rr. toNumber B (cell rr k)) (one_column k (numbers xs @ [JNull])))"
    unfolding column_nums_def by (rule map_filter_via_map)
  also have "\<dots> = List.map_filter id (map Some xs) @ List.map_filter id [None]"
    unfolding n by (simp add: map_filter_def)
  finally show "column_nums B k (one_column k (numbers xs @ [JNull])) = xs"
    by (simp add: map_filter_Some)
qed

lemma numbers_table_cleaned:
  assumes "i < length xs"
  shows "cell (rows (cleanData B (one_column k (numbers xs)) (profile_of k ''numeric'')) ! i) k
           = JNum (Fin (winsorize xs ! i))"
    and "cell (rows (cleanData B (rows (cleanData B (one_column k (numbers xs)) (profile_of k ''numeric'')))
                       (profile_of k ''numeric'')) ! i) k
           = JNum (Fin (winsorize (winsorize xs) ! i))"
proof -
  let ?c = "\<lparr>cname = k, ctype = ''numeric''\<rparr>"
  have d: "distinct (map cname (columns (profile_of k ''numeric'')))"
    and m: "?c \<in> set (columns (profile_of k ''numeric''))"
    by (simp_all add: profile_of_simps)
  have ty: "ctype ?c = ''numeric''" by simp
  have l: "i < length (one_column k (numbers xs))"
    using assms by (simp add: length_one_column numbers_def)
  show "cell (rows (cleanData B (one_column k (numbers xs)) (profile_of k ''numeric'')) ! i) k
           = JNum (Fin (winsorize xs ! i))"
    using numeric_cell [OF d m ty l, of B] by (simp add: numbers_table)
  show "cell (rows (cleanData B (rows (cleanData B (one_column k (numbers xs)) (profile_of k ''numeric'')))
                       (profile_of k ''numeric'')) ! i) k
           = JNum (Fin (winsorize (winsorize xs) ! i))"
    using second_run_numeric [OF d m ty l, of B] by (simp add: numbers_table)
qed

text \<open>
  Claim C5 as stated fails: in the column \<open>0, 0, 4, 4, 4, 4, 4, 5\<close> the first run clips to
  the range from \<open>3/2\<close> to \<open>11/2\<close> and leaves the cell 5 as it is; the second run
  computes the range of the cleaned column, whose upper end is \<open>79/16\<close>, and changes that
  cell.
\<close>

theorem second_run_clips_cell_that_was_in_range:
  "cell (rows (cleanData no_builtins (one_column ''x'' (numbers [0, 0, 4, 4, 4, 4, 4, 5]))
                 (profile_of ''x'' ''numeric'')) ! 7) ''x'' = JNum (Fin 5) \<and>
   fences (converted no_builtins
             (numeric_fill no_builtins ''x'' (one_column ''x'' (numbers [0, 0, 4, 4, 4, 4, 4, 5])))
             ''x'' (one_column ''x'' (numbers [0, 0, 4, 4, 4, 4, 4, 5])))
     = (3 / 2, 11 / 2) \<and>
   cell (rows (cleanData no_builtins
                 (rows (cleanData no_builtins (one_column ''x'' (numbers [0, 0, 4, 4, 4, 4, 4, 5]))
                          (profile_of ''x'' ''numeric'')))
                 (profile_of ''x'' ''numeric'')) ! 7) ''x'' = JNum (Fin (79 / 16))"
proof -
  have l: "7 < length [0, 0, 4, 4, 4, 4, 4, 5 :: rat]" by simp
  have w1: "winsorize [0, 0, 4, 4, 4, 4, 4, 5] ! 7 = 5" by code_simp
  have w2: "winsorize (winsorize [0, 0, 4, 4, 4, 4, 4, 5]) ! 7 = 79 / 16" by code_simp
  have f: "fences [0, 0, 4, 4, 4, 4, 4, 5] = (3 / 2, 11 / 2)" by code_simp
  show ?thesis
    unfolding numbers_table_cleaned [OF l] numbers_table w1 w2 f by simp
qed


theorem second_run_keeps_settled_cells_witness:
  "distinct (map cname (columns (profile_of ''x'' ''numeric''))) \<and>
   \<lparr>cname = ''x'', ctype = ''numeric''\<rparr> \<in> set (columns (profile_of ''x'' ''numeric'')) \<and>
   (4 :: nat) < length (one_column ''x'' (numbers [1, 2, 3, 4, 100])) \<and>
   cell (rows (cleanData no_builtins (one_column ''x'' (numbers [1, 2, 3, 4, 100]))
                 (profile_of ''x'' ''numeric'')) ! 4) ''x'' = JNum (Fin 7) \<and>
   fences (column_nums no_builtins ''x''
             (rows (cleanData no_builtins (one_column ''x'' (numbers [1, 2, 3, 4, 100]))
                      (profile_of ''x'' ''numeric'')))) = (- 1, 7) \<and>
   cell (rows (cleanData no_builtins
                 (rows (cleanData no_builtins (one_column ''x'' (numbers [1, 2, 3, 4, 100]))
                          (profile_of ''x'' ''numeric'')))
                 (profile_of ''x'' ''numeric'')) ! 4) ''x'' = JNum (Fin 7) \<and>
   distinct (map cname (columns (profile_of ''d'' ''datetime''))) \<and>
   \<lparr>cname = ''d'', ctype = ''datetime''\<rparr> \<in> set (columns (profile_of ''d'' ''datetime'')) \<and>
   (0 :: nat) < length (one_column ''d'' [JDate (Some 500)]) \<and>
   toDate iso_engine (cell (one_column ''d'' [JDate (Some 500)] ! 0) ''d'') = Some 500 \<and>
   canonical_date 500 = ''1970-01-01'' \<and>
   reads_back iso_engine 500 \<and>
   cell (rows (cleanData iso_engine (one_column ''d'' [JDate (Some 500)])
                 (profile_of ''d'' ''datetime'')) ! 0) ''d'' = JStr ''1970-01-01'' \<and>
   cell (rows (cleanData iso_engine
                 (rows (cleanData iso_engine (one_column ''d'' [JDate (Some 500)])
                          (profile_of ''d'' ''datetime'')))
                 (profile_of ''d'' ''datetime'')) ! 0) ''d'' = JStr ''1970-01-01'' \<and>
   distinct (map cname (columns (profile_of ''t'' ''text''))) \<and>
   \<lparr>cname = ''t'', ctype = ''text''\<rparr> \<in> set (columns (profile_of ''t'' ''text'')) \<and>
   (0 :: nat) < length (one_column ''t'' [JStr '' a '']) \<and>
   cell (rows (cleanData no_builtins (one_column ''t'' [JStr '' a ''])
                 (profile_of ''t'' ''text'')) ! 0) ''t'' = JStr ''a'' \<and>
   trim ''a'' = ''a'' \<and>
   cell (rows (cleanData no_builtins
                 (rows (cleanData no_builtins (one_column ''t'' [JStr '' a ''])
                          (profile_of ''t'' ''text'')))
                 (profile_of ''t'' ''text'')) ! 0) ''t'' = JStr ''a''"
proof -
  let ?c = "\<lparr>cname = ''x'', ctype = ''numeric''\<rparr>"
  let ?p = "profile_of ''x'' ''numeric''"
  let ?t = "one_column ''x'' (numbers [1, 2, 3, 4, 100])"
  let ?r1 = "rows (cleanData no_builtins ?t ?p)"
  have d: "distinct (map cname (columns ?p))" and m: "?c \<in> set (columns ?p)"
    by (simp_all add: profile_of_simps)
  have l: "(4 :: nat) < length ?t" by (simp add: length_one_column numbers_def)
  have l': "4 < length [1, 2, 3, 4, 100 :: rat]" by simp
  have w: "winsorize [1, 2, 3, 4, 100] = [1, 2, 3, 4, 7]" by code_simp
  have c1: "cell (?r1 ! 4) ''x'' = JNum (Fin 7)"
    unfolding numbers_table_cleaned(1) [OF l'] w by simp
  have ty: "ctype ?c = ''numeric''" by simp
  have "map (\<lambda>rr. cell rr (cname ?c)) ?r1
          = map (\<lambda>x. JNum (Fin x)) (winsorize (converted no_builtins (numeric_fill no_builtins (cname ?c) ?t) (cname ?c) ?t))"
    by (rule numeric_column [OF d m ty])
  then have "map (\<lambda>rr. cell rr ''x'') ?r1 = map (\<lambda>x. JNum (Fin x)) [1, 2, 3, 4, 7]"
    by (simp add: numbers_table w)
  then have cn: "column_nums no_builtins ''x'' ?r1 = [1, 2, 3, 4, 7]"
    by (rule numbers_column(2))
  have f: "fences [1, 2, 3, 4, 7] = (- 1, 7)" by code_simp
  have fr: "fences (column_nums no_builtins ''x'' ?r1) = (- 1, 7)" by (simp add: cn f)
  from second_run_keeps_settled_cells [OF d m l, of no_builtins] c1 fr
  have c2: "cell (rows (cleanData no_builtins ?r1 ?p) ! 4) ''x'' = JNum (Fin 7)" by simp
  let ?cd = "\<lparr>cname = ''d'', ctype = ''datetime''\<rparr>"
  let ?pd = "profile_of ''d'' ''datetime''"
  let ?td = "one_column ''d'' [JDate (Some 500)]"
  let ?d1 = "rows (cleanData iso_engine ?td ?pd)"
  have dd: "distinct (map cname (columns ?pd))" and md: "?cd \<in> set (columns ?pd)"
    by (simp_all add: profile_of_simps)
  have ld: "(0 :: nat) < length ?td" by (simp add: length_one_column)
  have raw: "cell (?td ! 0) ''d'' = JDate (Some 500)" by (simp add: cell_one_column)
  have nb: "\<not> blank (cell (?td ! 0) ''d'')" by (simp add: raw blank_def nullish_def)
  have td: "toDate iso_engine (cell (?td ! 0) ''d'') = Some 500" by (simp add: raw toDate_def)
  have cd: "canonical_date 500 = ''1970-01-01''" by code_simp
  have p1: "iso_parse (toISOString 500) = Some 500" by code_simp
  have p2: "iso_parse (date_only 500) = Some 0" by code_simp
  have rb: "reads_back iso_engine 500"
    by (simp add: reads_back_def iso_engine_def p1 p2 time_of_day_def)
  note D = second_run_keeps_settled_cells [OF dd md ld, of iso_engine]
  have e1: "cell (?d1 ! 0) ''d'' = JStr ''1970-01-01''" using D nb td by (simp add: cd)
  have "\<forall>t. cell (?d1 ! 0) ''d'' = JStr (canonical_date t) \<and> reads_back iso_engine t
          \<longrightarrow> cell (rows (cleanData iso_engine ?d1 ?pd) ! 0) ''d'' = JStr (canonical_date t)"
    using D by simp
  then have "cell (?d1 ! 0) ''d'' = JStr (canonical_date 500) \<and> reads_back iso_engine 500
          \<longrightarrow> cell (rows (cleanData iso_engine ?d1 ?pd) ! 0) ''d'' = JStr (canonical_date 500)"
    by (rule spec)
  then have e2: "cell (rows (cleanData iso_engine ?d1 ?pd) ! 0) ''d'' = JStr ''1970-01-01''"
    using e1 rb by (simp add: cd)
  let ?ct = "\<lparr>cname = ''t'', ctype = ''text''\<rparr>"
  let ?pt = "profile_of ''t'' ''text''"
  let ?tt = "one_column ''t'' [JStr '' a '']"
  let ?t1 = "rows (cleanData no_builtins ?tt ?pt)"
  have dt: "distinct (map cname (columns ?pt))" and mt: "?ct \<in> set (columns ?pt)"
    by (simp_all add: profile_of_simps)
  have lt: "(0 :: nat) < length ?tt" by (simp add: length_one_column)
  have g1: "cell (?t1 ! 0) ''t'' = JStr ''a''" by code_simp
  have tr: "trim ''a'' = ''a''" by code_simp
  from second_run_keeps_settled_cells [OF dt mt lt, of no_builtins] g1 tr
  have g2: "cell (rows (cleanData no_builtins ?t1 ?pt) ! 0) ''t'' = JStr ''a''" by simp
  show ?thesis
    using d m l c1 fr c2 dd md ld td cd rb e1 e2 dt mt lt g1 tr g2 by (intro conjI)
qed

text \<open>
  Claim C2 says that a cleaned numeric cell lies within the range that the quantiles of
  the column's non-missing values give. The column \<open>-10, -8, -4, -3, 1, 5\<close> with one
  missing cell has the sample range from \<open>-13\<close> to 3: its third quartile interpolates
  to 0, and the fallback of \<^const>\<open>quantiles_q\<close> on a zero result makes it \<open>-3\<close>. The code
  clips the filled column, whose third quartile is \<open>-1\<close>, and the cell 5 stays.
\<close>

theorem winsorized_cell_outside_sample_fences:
  "column_nums no_builtins ''x'' (one_column ''x'' (numbers [- 10, - 8, - 4, - 3, 1, 5] @ [JNull]))
     = [- 10, - 8, - 4, - 3, 1, 5] \<and>
   fences [- 10, - 8, - 4, - 3, 1, 5] = (- 13, 3) \<and>
   cell (rows (cleanData no_builtins (one_column ''x'' (numbers [- 10, - 8, - 4, - 3, 1, 5] @ [JNull]))
                 (profile_of ''x'' ''numeric'')) ! 5) ''x'' = JNum (Fin 5)"
proof -
  let ?c = "\<lparr>cname = ''x'', ctype = ''numeric''\<rparr>"
  let ?p = "profile_of ''x'' ''numeric''"
  let ?t = "one_column ''x'' (numbers [- 10, - 8, - 4, - 3, 1, 5] @ [JNull])"
  have d: "distinct (map cname (columns ?p))" and m: "?c \<in> set (columns ?p)"
    by (simp_all add: profile_of_simps)
  have ty: "ctype ?c = ''numeric''" by simp
  have l: "5 < length ?t" by (simp add: length_one_column numbers_def)
  have cn: "column_nums no_builtins ''x'' ?t = [- 10, - 8, - 4, - 3, 1, 5]"
    by (rule numbers_and_null_table(2))
  have md: "q2 (quantiles [- 10, - 8, - 4, - 3, 1, 5]) = - 7 / 2" by code_simp
  have nf: "numeric_fill no_builtins ''x'' ?t = - 7 / 2"
    by (simp add: numeric_fill_def cn md)
  have w: "winsorize [- 10, - 8, - 4, - 3, 1, 5, - (7 / 2)] ! 5 = 5" by code_simp
  have f: "fences [- 10, - 8, - 4, - 3, 1, 5] = (- 13, 3)" by code_simp
  have "cell (rows (cleanData no_builtins ?t ?p) ! 5) ''x'' = JNum (Fin 5)"
    using numeric_cell [OF d m ty l, of no_builtins]
    by (simp add: nf numbers_and_null_table(1) w)
  then show ?thesis using cn f by (intro conjI)
qed

subsection \<open>Assignments reach the copies only\<close>

lemma length_assign: "length (assign k h a v) = length h"
  by (simp add: assign_def)

lemma nth_assign:
  "a < length h \<Longrightarrow> assign k h a v ! b = (if b = a then (h ! a)(k \<mapsto> v) else h ! b)"
  by (simp add: assign_def nth_list_update)

lemma foldl_assign_each:
  "distinct refs \<Longrightarrow> \<forall>a\<in>set refs. a < length h \<Longrightarrow>
   length (foldl (\<lambda>h a. assign k h a (f (h ! a))) h refs) = length h \<and>
   (\<forall>b. foldl (\<lambda>h a. assign k h a (f (h ! a))) h refs ! b
          = (if b \<in> set refs then (h ! b)(k \<mapsto> f (h ! b)) else h ! b))"
proof (induction refs arbitrary: h)
  case Nil
  then show ?case by simp
next
  case (Cons a refs)
  let ?h1 = "assign k h a (f (h ! a))"
  have a: "a < length h" "a \<notin> set refs" using Cons.prems by auto
  have v: "\<forall>b\<in>set refs. b < length ?h1" using Cons.prems(2) by (simp add: length_assign)
  have d: "distinct refs" using Cons.prems(1) by simp
  have IH: "length (foldl (\<lambda>h a. assign k h a (f (h ! a))) ?h1 refs) = length ?h1"
    "\<And>b. foldl (\<lambda>h a. assign k h a (f (h ! a))) ?h1 refs ! b
          = (if b \<in> set refs then (?h1 ! b)(k \<mapsto> f (?h1 ! b)) else ?h1 ! b)"
    using Cons.IH [OF d v] by blast+
  show ?case
  proof (intro conjI allI)
    show "length (foldl (\<lambda>h a. assign k h a (f (h ! a))) h (a # refs)) = length h"
      using IH(1) by (simp add: length_assign)
    fix b
    show "foldl (\<lambda>h a. assign k h a (f (h ! a))) h (a # refs) ! b
          = (if b \<in> set (a # refs) then (h ! b)(k \<mapsto> f (h ! b)) else h ! b)"
      using IH(2) [of b] a by (auto simp: nth_assign)
  qed
qed

lemma foldl_assign_indexed:
  "distinct out \<Longrightarrow> \<forall>a\<in>set out. a < length h \<Longrightarrow> n \<le> length out \<Longrightarrow>
   length (foldl (\<lambda>h i. assign k h (out ! i) (g i)) h [0..<n]) = length h \<and>
   (\<forall>i<n. foldl (\<lambda>h i. assign k h (out ! i) (g i)) h [0..<n] ! (out ! i) = (h ! (out ! i))(k \<mapsto> g i)) \<and>
   (\<forall>b. b \<notin> set (take n out) \<longrightarrow> foldl (\<lambda>h i. assign k h (out ! i) (g i)) h [0..<n] ! b = h ! b)"
proof (induction n)
  case 0
  then show ?case by simp
next
  case (Suc n)
  let ?h1 = "foldl (\<lambda>h i. assign k h (out ! i) (g i)) h [0..<n]"
  have n: "n < length out" using Suc.prems(3) by simp
  have IH: "length ?h1 = length h"
    "\<And>i. i < n \<Longrightarrow> ?h1 ! (out ! i) = (h ! (out ! i))(k \<mapsto> g i)"
    "\<And>b. b \<notin> set (take n out) \<Longrightarrow> ?h1 ! b = h ! b"
    using Suc.IH [OF Suc.prems(1,2) less_imp_le [OF n]] by blast+
  have step: "foldl (\<lambda>h i. assign k h (out ! i) (g i)) h [0..<Suc n] = assign k ?h1 (out ! n) (g n)"
    by simp
  have an: "out ! n < length ?h1" using Suc.prems(2) n IH(1) by simp
  have fresh: "out ! n \<notin> set (take n out)"
    using Suc.prems(1) n by (auto simp: in_set_conv_nth distinct_conv_nth)
  have tk: "set (take (Suc n) out) = insert (out ! n) (set (take n out))"
    using n by (simp add: take_Suc_conv_app_nth)
  show ?case
  proof (intro conjI allI impI)
    show "length (foldl (\<lambda>h i. assign k h (out ! i) (g i)) h [0..<Suc n]) = length h"
      unfolding step by (simp add: length_assign IH(1))
  next
    fix i assume i: "i < Suc n"
    show "foldl (\<lambda>h i. assign k h (out ! i) (g i)) h [0..<Suc n] ! (out ! i) = (h ! (out ! i))(k \<mapsto> g i)"
    proof (cases "i = n")
      case True
      then show ?thesis unfolding step using an IH(3) [OF fresh] by (simp add: nth_assign)
    next
      case False
      then have lt: "i < n" using i by simp
      then have "out ! i \<noteq> out ! n" using Suc.prems(1) n by (simp add: nth_eq_iff_index_eq)
      then show ?thesis unfolding step using an IH(2) [OF lt] by (simp add: nth_assign)
    qed
  next
    fix b assume "b \<notin> set (take (Suc n) out)"
    then have "b \<noteq> out ! n" "b \<notin> set (take n out)" unfolding tk by auto
    then show "foldl (\<lambda>h i. assign k h (out ! i) (g i)) h [0..<Suc n] ! b = h ! b"
      unfolding step using an IH(3) by (simp add: nth_assign)
  qed
qed


lemma per_row_loop:
  assumes "distinct out" and "\<forall>a\<in>set out. a < length h"
  shows "deref (foldl (\<lambda>h a. assign k h a (f (h ! a))) h out) out
           = map (\<lambda>rr. rr(k \<mapsto> f rr)) (deref h out)"
    and "length (foldl (\<lambda>h a. assign k h a (f (h ! a))) h out) = length h"
    and "b \<notin> set out \<Longrightarrow> foldl (\<lambda>h a. assign k h a (f (h ! a))) h out ! b = h ! b"
  using foldl_assign_each [OF assms, of k f] by (simp_all add: deref_def)

lemma index_loop:
  assumes "distinct out" and "\<forall>a\<in>set out. a < length h"
  shows "deref (foldl (\<lambda>h i. assign k h (out ! i) (g i)) h [0..<length out]) out
           = map (\<lambda>i. (deref h out ! i)(k \<mapsto> g i)) [0..<length out]"
    and "length (foldl (\<lambda>h i. assign k h (out ! i) (g i)) h [0..<length out]) = length h"
    and "b \<notin> set out \<Longrightarrow> foldl (\<lambda>h i. assign k h (out ! i) (g i)) h [0..<length out] ! b = h ! b"
proof -
  note L = foldl_assign_indexed [OF assms order_refl, of k g]
  show "deref (foldl (\<lambda>h i. assign k h (out ! i) (g i)) h [0..<length out]) out
           = map (\<lambda>i. (deref h out ! i)(k \<mapsto> g i)) [0..<length out]"
    using L by (intro nth_equalityI) (simp_all add: deref_def)
  show "length (foldl (\<lambda>h i. assign k h (out ! i) (g i)) h [0..<length out]) = length h"
    using L by blast
  show "b \<notin> set out \<Longrightarrow> foldl (\<lambda>h i. assign k h (out ! i) (g i)) h [0..<length out] ! b = h ! b"
    using L by simp
qed

lemma length_deref: "length (deref h refs) = length refs"
  by (simp add: deref_def)

lemma transform_store_refines:
  assumes "distinct out" and "\<forall>a\<in>set out. a < length h"
  shows "deref (fst (transform_store B S out (h, rep) col)) out
           = fst (transform B S (deref h out, rep) col)"
    and "snd (transform_store B S out (h, rep) col) = snd (transform B S (deref h out, rep) col)"
    and "length (fst (transform_store B S out (h, rep) col)) = length h"
    and "b \<notin> set out \<Longrightarrow> fst (transform_store B S out (h, rep) col) ! b = h ! b"
proof -
  obtain meds mods where S: "S = (meds, mods)" by (cases S)
  let ?k = "cname col"
  let ?fd = "\<lambda>rr. case normalizeDate B (cell rr ?k) of None \<Rightarrow> cell rr ?k | Some s \<Rightarrow> JStr s"
  let ?fb = "\<lambda>rr. case normalizeBoolean B (cell rr ?k) of
                   None \<Rightarrow> (case mods ?k of None \<Rightarrow> JBool False | Some b \<Rightarrow> b)
                 | Some v \<Rightarrow> JBool v"
  let ?ft = "\<lambda>rr. if blank (cell rr ?k) then (case mods ?k of None \<Rightarrow> JStr ''Unknown'' | Some s \<Rightarrow> s)
                  else JStr (trim (String_of B (cell rr ?k)))"
  let ?g = "\<lambda>i. JNum (Fin (winsorize (converted B (case meds ?k of None \<Rightarrow> 0 | Some m \<Rightarrow> m) ?k
                                   (deref h out)) ! i))"
  note row = per_row_loop [OF assms]
  note idx = index_loop [OF assms, where k = ?k and g = ?g]
  show "deref (fst (transform_store B S out (h, rep) col)) out
           = fst (transform B S (deref h out, rep) col)"
    unfolding S
    by (simp add: transform_store_def transform_def Let_def length_deref
        row(1) [where k = ?k and f = ?fd] row(1) [where k = ?k and f = ?fb] row(1) [where k = ?k and f = ?ft] idx(1))
  show "snd (transform_store B S out (h, rep) col) = snd (transform B S (deref h out, rep) col)"
    unfolding S by (simp add: transform_store_def transform_def Let_def)
  show "length (fst (transform_store B S out (h, rep) col)) = length h"
    unfolding S
    by (simp add: transform_store_def Let_def
        row(2) [where k = ?k and f = ?fd] row(2) [where k = ?k and f = ?fb] row(2) [where k = ?k and f = ?ft] idx(2))
  show "b \<notin> set out \<Longrightarrow> fst (transform_store B S out (h, rep) col) ! b = h ! b"
    unfolding S
    by (simp add: transform_store_def Let_def
        row(3) [where k = ?k and f = ?fd] row(3) [where k = ?k and f = ?fb] row(3) [where k = ?k and f = ?ft] idx(3))
qed

subsection \<open>Input rows and unlisted columns\<close>

lemma foldl_transform_store_refines:
  assumes "distinct out" and "\<forall>a\<in>set out. a < length h"
  shows "deref (fst (foldl (transform_store B S out) (h, rep) cols)) out
           = fst (foldl (transform B S) (deref h out, rep) cols) \<and>
         snd (foldl (transform_store B S out) (h, rep) cols)
           = snd (foldl (transform B S) (deref h out, rep) cols) \<and>
         length (fst (foldl (transform_store B S out) (h, rep) cols)) = length h \<and>
         (\<forall>b. b \<notin> set out \<longrightarrow> fst (foldl (transform_store B S out) (h, rep) cols) ! b = h ! b)"
  using assms(2)
proof (induction cols arbitrary: h rep)
  case Nil
  then show ?case by simp
next
  case (Cons d ds)
  obtain h1 rep1 where t: "transform_store B S out (h, rep) d = (h1, rep1)"
    by (cases "transform_store B S out (h, rep) d")
  note R = transform_store_refines [OF assms(1) Cons.prems, where B = B and S = S and rep = rep and col = d]
  have h1: "deref h1 out = fst (transform B S (deref h out, rep) d)"
    and r1: "rep1 = snd (transform B S (deref h out, rep) d)"
    and l1: "length h1 = length h"
    and f1: "\<And>b. b \<notin> set out \<Longrightarrow> h1 ! b = h ! b"
    using R t by simp_all
  have v1: "\<forall>a\<in>set out. a < length h1" using Cons.prems l1 by simp
  have pure: "transform B S (deref h out, rep) d = (deref h1 out, rep1)"
    using h1 r1 by (simp add: prod_eq_iff)
  show ?case
    using Cons.IH [OF v1, where rep = rep1] t pure l1 f1 by simp
qed

lemma deref_append_old: "\<forall>a\<in>set refs. a < length h \<Longrightarrow> deref (h @ xs) refs = deref h refs"
  by (simp add: deref_def nth_append)

lemma deref_append_new: "deref (h @ xs) [length h..<length h + length xs] = xs"
  by (rule nth_equalityI) (simp_all add: deref_def nth_append)

lemma cleanData_store_refines:
  assumes "\<forall>a\<in>set rs. a < length h"
  shows "deref (store_after (cleanData_store B h rs profile)) (row_refs (cleanData_store B h rs profile))
           = rows (cleanData B (deref h rs) profile)"
    and "report_lines (cleanData_store B h rs profile) = report (cleanData B (deref h rs) profile)"
    and "take (length h) (store_after (cleanData_store B h rs profile)) = h"
    and "row_refs (cleanData_store B h rs profile) = [length h..<length h + length rs]"
proof -
  let ?out = "[length h..<length h + length rs]"
  let ?h0 = "h @ deref h rs"
  let ?S = "summaries B (deref h rs) profile"
  have d: "distinct ?out" by simp
  have v: "\<forall>a\<in>set ?out. a < length ?h0" by (simp add: length_deref)
  have old: "deref ?h0 rs = deref h rs" by (rule deref_append_old [OF assms])
  have new: "deref ?h0 ?out = deref h rs"
    using deref_append_new [of h "deref h rs"] by (simp add: length_deref)
  note F = foldl_transform_store_refines [OF d v, where B = B and S = ?S and rep = "[]" and cols = "columns profile"]
  have R: "store_after (cleanData_store B h rs profile)
             = fst (foldl (transform_store B ?S ?out) (?h0, []) (columns profile))"
    "report_lines (cleanData_store B h rs profile)
             = snd (foldl (transform_store B ?S ?out) (?h0, []) (columns profile))"
    "row_refs (cleanData_store B h rs profile) = ?out"
    by (simp_all add: cleanData_store_def Let_def old)
  show "row_refs (cleanData_store B h rs profile) = ?out" by (rule R(3))
  show "deref (store_after (cleanData_store B h rs profile)) (row_refs (cleanData_store B h rs profile))
           = rows (cleanData B (deref h rs) profile)"
    unfolding R rows_cleanData using F by (simp add: new)
  show "report_lines (cleanData_store B h rs profile) = report (cleanData B (deref h rs) profile)"
    unfolding R report_cleanData using F by (simp add: new)
  show "take (length h) (store_after (cleanData_store B h rs profile)) = h"
  proof (rule nth_equalityI)
    show "length (take (length h) (store_after (cleanData_store B h rs profile))) = length h"
      unfolding R using F by (simp add: length_deref)
    fix i assume "i < length (take (length h) (store_after (cleanData_store B h rs profile)))"
    then have i: "i < length h" by simp
    then have "i \<notin> set ?out" by simp
    then have "fst (foldl (transform_store B ?S ?out) (?h0, []) (columns profile)) ! i = ?h0 ! i"
      using F by blast
    then show "take (length h) (store_after (cleanData_store B h rs profile)) ! i = h ! i"
      unfolding R using i by (simp add: nth_append)
  qed
qed


lemma report_entries_listed:
  "e \<in> set (report (cleanData B rs profile)) \<Longrightarrow> \<exists>c\<in>set (columns profile). entry_for c e"
proof -
  assume e: "e \<in> set (report (cleanData B rs profile))"
  let ?cs = "filter supported (columns profile)"
  have L: "list_all2 entry_for ?cs (report (cleanData B rs profile))"
    using report_foldl_transform [of B "summaries B rs profile" rs "[]" "columns profile"]
    by (auto simp: report_cleanData)
  obtain j where j: "j < length (report (cleanData B rs profile))"
      "report (cleanData B rs profile) ! j = e"
    using e by (auto simp: in_set_conv_nth)
  then have "entry_for (?cs ! j) e" and "j < length ?cs"
    using L by (auto simp: list_all2_conv_all_nth)
  then have "?cs ! j \<in> set (columns profile)" and "entry_for (?cs ! j) e"
    using nth_mem [of j ?cs] by auto
  then show ?thesis by blast
qed

text \<open>
  Claim C9, on the store: when the rows refer to objects of the store, every object that
  was in the store before the call is the same after it, so no input row is mutated; the
  returned rows are new objects whose contents are the rows that \<^const>\<open>cleanData\<close> computes;
  a column name that the profile does not list maps in each returned row to what it maps
  to in the input row (also when the row does not have it); and every report line is the
  line of a column that the profile lists.
\<close>

theorem input_rows_kept_unlisted_columns_kept:
  assumes "\<forall>a\<in>set rs. a < length h"
  shows "take (length h) (store_after (cleanData_store B h rs profile)) = h \<and>
         deref (store_after (cleanData_store B h rs profile)) (row_refs (cleanData_store B h rs profile))
           = rows (cleanData B (deref h rs) profile) \<and>
         length (row_refs (cleanData_store B h rs profile)) = length rs \<and>
         (\<forall>i<length rs. \<forall>k. k \<notin> cname ` set (columns profile) \<longrightarrow>
            (store_after (cleanData_store B h rs profile) ! (row_refs (cleanData_store B h rs profile) ! i)) k
              = (h ! (rs ! i)) k) \<and>
         (\<forall>e\<in>set (report_lines (cleanData_store B h rs profile)).
            \<exists>c\<in>set (columns profile). entry_for c e)"
proof -
  let ?R = "cleanData_store B h rs profile"
  note F = cleanData_store_refines [OF assms, of B profile]
  have len: "length (row_refs ?R) = length rs" unfolding F(4) by simp
  have unl: "\<forall>i<length rs. \<forall>k. k \<notin> cname ` set (columns profile) \<longrightarrow>
            (store_after ?R ! (row_refs ?R ! i)) k = (h ! (rs ! i)) k"
  proof (intro allI impI)
    fix i k assume i: "i < length rs" and k: "k \<notin> cname ` set (columns profile)"
    have "store_after ?R ! (row_refs ?R ! i) = deref (store_after ?R) (row_refs ?R) ! i"
      using i len by (simp add: deref_def)
    also have "\<dots> = rows (cleanData B (deref h rs) profile) ! i" by (simp only: F(1))
    finally have "(store_after ?R ! (row_refs ?R ! i)) k = (deref h rs ! i) k"
      using unlisted_column_unchanged [OF k, of i "deref h rs" B] i by (simp add: length_deref)
    then show "(store_after ?R ! (row_refs ?R ! i)) k = (h ! (rs ! i)) k"
      using i by (simp add: deref_def)
  qed
  have rep: "\<forall>e\<in>set (report_lines ?R). \<exists>c\<in>set (columns profile). entry_for c e"
    unfolding F(2) using report_entries_listed by blast
  show ?thesis using F(3) F(1) len unl rep by (intro conjI)
qed

theorem input_rows_kept_unlisted_columns_kept_witness:
  "(0 :: nat) < length [[''a'' \<mapsto> JStr '' x '', ''b'' \<mapsto> JNull]] \<and>
   ''b'' \<notin> cname ` set (columns (profile_of ''a'' ''text'')) \<and>
   take 1 (store_after (cleanData_store no_builtins [[''a'' \<mapsto> JStr '' x '', ''b'' \<mapsto> JNull]] [0]
                          (profile_of ''a'' ''text'')))
     = [[''a'' \<mapsto> JStr '' x '', ''b'' \<mapsto> JNull]] \<and>
   (store_after (cleanData_store no_builtins [[''a'' \<mapsto> JStr '' x '', ''b'' \<mapsto> JNull]] [0]
                   (profile_of ''a'' ''text''))
      ! (row_refs (cleanData_store no_builtins [[''a'' \<mapsto> JStr '' x '', ''b'' \<mapsto> JNull]] [0]
                     (profile_of ''a'' ''text'')) ! 0)) ''b'' = Some JNull"
proof -
  let ?h = "[[''a'' \<mapsto> JStr '' x '', ''b'' \<mapsto> JNull]] :: store"
  let ?R = "cleanData_store no_builtins ?h [0] (profile_of ''a'' ''text'')"
  have v: "\<forall>a\<in>set [0 :: nat]. a < length ?h" by simp
  have k: "''b'' \<notin> cname ` set (columns (profile_of ''a'' ''text''))"
    by (simp add: profile_of_def)
  note T = input_rows_kept_unlisted_columns_kept [OF v, of no_builtins "profile_of ''a'' ''text''"]
  have t1: "take 1 (store_after ?R) = ?h" using T by simp
  have "\<forall>i<length [0 :: nat]. \<forall>k. k \<notin> cname ` set (columns (profile_of ''a'' ''text'')) \<longrightarrow>
            (store_after ?R ! (row_refs ?R ! i)) k = (?h ! ([0] ! i)) k"
    using T by blast
  then have "(store_after ?R ! (row_refs ?R ! 0)) ''b'' = (?h ! ([0] ! 0)) ''b''"
    using k by simp
  then have t2: "(store_after ?R ! (row_refs ?R ! 0)) ''b'' = Some JNull" by simp
  show ?thesis using k t1 t2 by simp
qed

subsection \<open>Row count and the scenarios of the specification\<close>

text \<open>
  The cleaned table has as many rows as the input.
\<close>

theorem cleaned_row_count: "length (rows (cleanData B rs profile)) = length rs"
  by (simp add: rows_cleanData length_foldl_transform)

text \<open>
  The scenarios of the specification, as far as they do not depend on an engine
  function: a numeric column with an outlier, a numeric column with a missing cell and
  fewer than five rows, a boolean column, and a text column with a tie of the mode.
\<close>

theorem scenario_numeric_outlier:
  "map (\<lambda>rr. cell rr ''x'')
     (rows (cleanData no_builtins (one_column ''x'' (numbers [1, 2, 3, 4, 100])) (profile_of ''x'' ''numeric'')))
   = numbers [1, 2, 3, 4, 7]"
  by code_simp

theorem scenario_numeric_missing:
  "map (\<lambda>rr. cell rr ''x'')
     (rows (cleanData no_builtins (one_column ''x'' [JNum (Fin 10), JNull, JNum (Fin 30)])
              (profile_of ''x'' ''numeric'')))
   = numbers [10, 20, 30]"
  by code_simp

theorem scenario_boolean:
  "map (\<lambda>rr. cell rr ''b'')
     (rows (cleanData no_builtins (one_column ''b'' [JStr ''yes'', JStr ''NO'', JStr '''', JStr ''1''])
              (profile_of ''b'' ''boolean'')))
   = [JBool True, JBool False, JBool True, JBool True]"
  by code_simp

theorem scenario_text:
  "map (\<lambda>rr. cell rr ''t'')
     (rows (cleanData no_builtins (one_column ''t'' [JStr '' Alice'', JStr '''', JStr ''alice'', JNull])
              (profile_of ''t'' ''text'')))
   = [JStr ''Alice'', JStr ''Alice'', JStr ''alice'', JStr ''Alice'']"
  by code_simp

subsection \<open>The clipping range of the filled column\<close>

lemma quantiles_q_between:
  assumes "sorted a" and "2 \<le> length a" and "0 \<le> p" and "p < 1"
  shows "nat \<lfloor>of_nat (length a - 1) * p\<rfloor> + 1 < length a"
    and "a ! nat \<lfloor>of_nat (length a - 1) * p\<rfloor> \<le> quantiles_q a p"
    and "quantiles_q a p \<le> a ! (nat \<lfloor>of_nat (length a - 1) * p\<rfloor> + 1)"
proof -
  define m where "m = length a - 1"
  define pos :: rat where "pos = of_nat m * p"
  define b where "b = nat \<lfloor>pos\<rfloor>"
  have m: "1 \<le> m" "length a = m + 1" using assms(2) by (simp_all add: m_def)
  have m0: "0 < (of_nat m :: rat)" using m(1) by simp
  have pos0: "0 \<le> pos" using assms(3) by (simp add: pos_def)
  have "of_nat m * p < of_nat m * (1 :: rat)" using m0 assms(4) by (intro mult_strict_left_mono)
  then have "pos < of_int (int m)" by (simp add: pos_def)
  then have "\<lfloor>pos\<rfloor> < int m" by (simp only: floor_less_iff)
  moreover have fl: "0 \<le> \<lfloor>pos\<rfloor>" using pos0 by simp
  ultimately have b: "b + 1 < length a" unfolding b_def m(2) by linarith
  have ob: "(of_nat b :: rat) = of_int \<lfloor>pos\<rfloor>" using fl by (simp add: b_def)
  define rest where "rest = pos - of_nat b"
  have r0: "0 \<le> rest" unfolding rest_def ob by simp
  have r1: "rest \<le> 1" unfolding rest_def ob by linarith
  have d: "a ! b \<le> a ! (b + 1)" using assms(1) b by (simp add: sorted_nth_mono)
  define r where "r = a ! b + (a ! (b + 1) - a ! b) * rest"
  have lo: "a ! b \<le> r" using d r0 by (simp add: r_def)
  have "(a ! (b + 1) - a ! b) * rest \<le> (a ! (b + 1) - a ! b) * 1"
    using d r1 by (intro mult_left_mono) simp_all
  then have hi: "r \<le> a ! (b + 1)" by (simp add: r_def)
  have ne: "a \<noteq> []" using assms(2) by auto
  have q: "quantiles_q a p = (if r = 0 then a ! b else r)"
    using ne b
    by (simp add: quantiles_q_def Let_def r_def rest_def b_def pos_def m_def del: of_nat_diff)
  show "nat \<lfloor>of_nat (length a - 1) * p\<rfloor> + 1 < length a"
    using b by (simp only: b_def pos_def m_def)
  show "a ! nat \<lfloor>of_nat (length a - 1) * p\<rfloor> \<le> quantiles_q a p"
    unfolding q using lo by (simp add: b_def pos_def m_def del: of_nat_diff)
  show "quantiles_q a p \<le> a ! (nat \<lfloor>of_nat (length a - 1) * p\<rfloor> + 1)"
    unfolding q using hi d by (simp add: b_def pos_def m_def del: of_nat_diff)
qed

lemma floor_quarter: "\<lfloor>of_nat m * (1 / 4 :: rat)\<rfloor> = int (m div 4)"
proof -
  have "of_nat m * (1 / 4 :: rat) = of_nat m / of_nat 4" by simp
  then show ?thesis by (simp only: floor_divide_of_nat_eq)
qed

lemma floor_three_quarters: "\<lfloor>of_nat m * (3 / 4 :: rat)\<rfloor> = int (3 * m div 4)"
proof -
  have "of_nat m * (3 / 4 :: rat) = of_nat (3 * m) / of_nat 4" by simp
  then show ?thesis by (simp only: floor_divide_of_nat_eq)
qed

lemma q1_le_q3:
  assumes "5 \<le> length arr"
  shows "q1 (quantiles arr) \<le> q3 (quantiles arr)"
proof -
  define a where "a = sort arr"
  define m where "m = length a - 1"
  have n: "5 \<le> length a" using assms by (simp add: a_def)
  have s: "sorted a" by (simp add: a_def)
  have two: "2 \<le> length a" using n by simp
  note A = quantiles_q_between [OF s two, of "1 / 4", folded m_def, unfolded floor_quarter]
  note C = quantiles_q_between [OF s two, of "3 / 4", folded m_def, unfolded floor_three_quarters]
  have m: "4 \<le> m" "length a = m + 1" using n by (simp_all add: m_def)
  have "m div 4 + 1 \<le> 3 * m div 4" using m(1) by presburger
  moreover have "3 * m div 4 < length a" using C(1) by simp
  ultimately have "a ! (m div 4 + 1) \<le> a ! (3 * m div 4)" using s by (simp add: sorted_nth_mono)
  moreover have "quantiles_q a (1 / 4) \<le> a ! (m div 4 + 1)" using A(3) by simp
  moreover have "a ! (3 * m div 4) \<le> quantiles_q a (3 / 4)" using C(2) by simp
  ultimately show ?thesis by (simp add: quantiles_def Let_def a_def)
qed


lemma fences_ordered:
  assumes "5 \<le> length arr"
  shows "fst (fences arr) \<le> snd (fences arr)"
proof -
  define a b where "a = q1 (quantiles arr)" and "b = q3 (quantiles arr)"
  have "a \<le> b" unfolding a_def b_def by (rule q1_le_q3 [OF assms])
  then have "0 \<le> 3 / 2 * (b - a)" by simp
  with \<open>a \<le> b\<close> have "a - 3 / 2 * (b - a) \<le> b + 3 / 2 * (b - a)" by linarith
  then show ?thesis by (simp only: fences_def Let_def fst_conv snd_conv a_def b_def)
qed

lemma winsorize_within:
  assumes "5 \<le> length arr" and "i < length arr"
  shows "fst (fences arr) \<le> winsorize arr ! i" and "winsorize arr ! i \<le> snd (fences arr)"
  using assms fences_ordered [OF assms(1)] by (auto simp: winsorize_fences)

text \<open>
  What the numeric branch does guarantee: in a table of at least five rows, a cleaned
  numeric cell lies within the clipping range of the filled column, the column after
  coercion and imputation. This is the range that \<^const>\<open>winsorize\<close> computes; it is the
  range of the non-missing values only when no cell is missing.
\<close>

theorem numeric_cell_within_fences_of_filled_column:
  assumes "distinct (map cname (columns profile))" and "c \<in> set (columns profile)"
    and "ctype c = ''numeric''" and "i < length rs" and "5 \<le> length rs"
  shows "\<exists>x. cell (rows (cleanData B rs profile) ! i) (cname c) = JNum (Fin x) \<and>
             fst (fences (converted B (numeric_fill B (cname c) rs) (cname c) rs)) \<le> x \<and>
             x \<le> snd (fences (converted B (numeric_fill B (cname c) rs) (cname c) rs))"
proof -
  let ?xs = "converted B (numeric_fill B (cname c) rs) (cname c) rs"
  have l: "length ?xs = length rs" by (rule length_converted)
  have "cell (rows (cleanData B rs profile) ! i) (cname c) = JNum (Fin (winsorize ?xs ! i))"
    by (rule numeric_cell [OF assms(1-4)])
  moreover have "fst (fences ?xs) \<le> winsorize ?xs ! i" "winsorize ?xs ! i \<le> snd (fences ?xs)"
    using winsorize_within [of ?xs i] assms(4,5) l by simp_all
  ultimately show ?thesis by blast
qed

theorem numeric_cell_within_fences_of_filled_column_witness:
  "distinct (map cname (columns (profile_of ''x'' ''numeric''))) \<and>
   \<lparr>cname = ''x'', ctype = ''numeric''\<rparr> \<in> set (columns (profile_of ''x'' ''numeric'')) \<and>
   (4 :: nat) < length (one_column ''x'' (numbers [1, 2, 3, 4, 100])) \<and>
   (5 :: nat) \<le> length (one_column ''x'' (numbers [1, 2, 3, 4, 100])) \<and>
   fences (converted no_builtins
             (numeric_fill no_builtins ''x'' (one_column ''x'' (numbers [1, 2, 3, 4, 100])))
             ''x'' (one_column ''x'' (numbers [1, 2, 3, 4, 100]))) = (- 1, 7) \<and>
   (\<exists>x. cell (rows (cleanData no_builtins (one_column ''x'' (numbers [1, 2, 3, 4, 100]))
                       (profile_of ''x'' ''numeric'')) ! 4) ''x'' = JNum (Fin x) \<and>
        - 1 \<le> x \<and> x \<le> 7)"
proof -
  let ?c = "\<lparr>cname = ''x'', ctype = ''numeric''\<rparr>"
  let ?p = "profile_of ''x'' ''numeric''"
  let ?t = "one_column ''x'' (numbers [1, 2, 3, 4, 100])"
  have d: "distinct (map cname (columns ?p))" and m: "?c \<in> set (columns ?p)"
    by (simp_all add: profile_of_simps)
  have ty: "ctype ?c = ''numeric''" by simp
  have l: "(4 :: nat) < length ?t" and l5: "(5 :: nat) \<le> length ?t"
    by (simp_all add: length_one_column numbers_def)
  have f: "fences [1, 2, 3, 4, 100] = (- 1, 7)" by code_simp
  have ff: "fences (converted no_builtins (numeric_fill no_builtins ''x'' ?t) ''x'' ?t) = (- 1, 7)"
    by (simp add: numbers_table f)
  from numeric_cell_within_fences_of_filled_column [OF d m ty l l5, of no_builtins]
  have "\<exists>x. cell (rows (cleanData no_builtins ?t ?p) ! 4) ''x'' = JNum (Fin x) \<and> - 1 \<le> x \<and> x \<le> 7"
    by (simp add: ff)
  then show ?thesis using d m l l5 ff by (intro conjI)
qed

end
